theory Spec2Isabelle
  imports Main "HOL-Library.Word"
begin

section \<open>Common ground: pointers, builds, aborts\<close>

text \<open>
  Object identities (\<open>HInstruction*\<close>, \<open>mirror::Class*\<close>) are addresses; the null
  pointer is address 0.
\<close>

type_synonym ptr = nat

definition nullptr :: ptr where
  "nullptr = 0"

text \<open>
  The ways the runtime stops the process. \<open>CHECK\<close> is active in every build;
  \<open>DCHECK\<close> and the code under \<open>kIsDebugBuild\<close> only in a debug build, so every
  operation that contains one takes the build kind as its first argument
  (\<open>True\<close> for a debug build). \<open>OutOfBounds\<close> stands for a read outside the
  method's code units (undefined behaviour in the source).
\<close>

datatype abort = LogFatal | CheckFailed | DCheckFailed | OutOfBounds

section \<open>The instruction cloner (cloning.h)\<close>

text \<open>
  A node of the graph, as far as the cloner's header looks at it: its identity and the
  kind name \<open>DebugName()\<close> returns (\<open>Add\<close> for \<open>HAdd\<close>, and so on).
\<close>

record HInstruction =
  addr :: ptr
  DebugName :: string

record HInstructionCloner =
  cloning_enabled :: bool
  all_cloned_okay :: bool
  use_cloned_inputs :: bool
  allow_overwrite :: bool
  orig_to_clone :: "ptr \<rightharpoonup> ptr"
  manual_clones :: "ptr set"
  debug_name_failed_clone :: "string option"

text \<open>The constructor; \<open>debug_name_failed_clone_\<close> starts as the null string.\<close>

definition new_HInstructionCloner :: "bool \<Rightarrow> bool \<Rightarrow> bool \<Rightarrow> HInstructionCloner" where
  "new_HInstructionCloner enable_cloning use_cloned allow_ow =
     \<lparr> cloning_enabled = enable_cloning,
       all_cloned_okay = True,
       use_cloned_inputs = use_cloned,
       allow_overwrite = allow_ow,
       orig_to_clone = Map.empty,
       manual_clones = {},
       debug_name_failed_clone = None \<rparr>"

text \<open>\<open>UnsupportedInstruction\<close>: two assignments, nothing else.\<close>

definition UnsupportedInstruction :: "HInstructionCloner \<Rightarrow> HInstruction \<Rightarrow> HInstructionCloner" where
  "UnsupportedInstruction c instruction =
     c\<lparr> all_cloned_okay := False,
        debug_name_failed_clone := Some (DebugName instruction) \<rparr>"

text \<open>
  \<open>VisitInstruction\<close>, the visitor's default for every kind the cloner does not
  override: fatal in a debug build, the unsupported path otherwise.
\<close>

definition VisitInstruction :: "bool \<Rightarrow> HInstructionCloner \<Rightarrow> HInstruction \<Rightarrow> abort + HInstructionCloner" where
  "VisitInstruction kIsDebugBuild c instruction =
     (if kIsDebugBuild then Inl LogFatal
      else Inr (UnsupportedInstruction c instruction))"

text \<open>
  \<open>CommitClone\<close>: the assertion guards only the case without overwrite, and only in
  a debug build; \<open>SafeMap::Overwrite\<close> then inserts or replaces.
\<close>

definition CommitClone :: "bool \<Rightarrow> HInstructionCloner \<Rightarrow> ptr \<Rightarrow> ptr \<Rightarrow> abort + HInstructionCloner" where
  "CommitClone kIsDebugBuild c instr clone =
     (if \<not> allow_overwrite c \<and> kIsDebugBuild \<and> orig_to_clone c instr \<noteq> None
      then Inl DCheckFailed
      else Inr (c\<lparr> orig_to_clone := (orig_to_clone c)(instr \<mapsto> clone) \<rparr>))"

text \<open>\<open>GetClone\<close>: the null pointer when the map has no entry for \<open>source\<close>.\<close>

definition GetClone :: "bool \<Rightarrow> HInstructionCloner \<Rightarrow> ptr \<Rightarrow> abort + ptr" where
  "GetClone kIsDebugBuild c source =
     (case orig_to_clone c source of
        Some clone \<Rightarrow>
          if kIsDebugBuild \<and> clone = nullptr then Inl DCheckFailed else Inr clone
      | None \<Rightarrow> Inr nullptr)"

text \<open>\<open>AddOrUpdateCloneManually\<close> and \<open>AddCloneManually\<close> seed the map by hand.
  \<open>SafeMap::Put\<close> asserts (debug build) that the key is new and inserts.\<close>

definition AddOrUpdateCloneManually :: "bool \<Rightarrow> HInstructionCloner \<Rightarrow> ptr \<Rightarrow> ptr \<Rightarrow> abort + HInstructionCloner" where
  "AddOrUpdateCloneManually kIsDebugBuild c original clone =
     (if kIsDebugBuild \<and> (original = nullptr \<or> clone = nullptr) then Inl DCheckFailed
      else Inr (c\<lparr> orig_to_clone := (orig_to_clone c)(original \<mapsto> clone) \<rparr>))"

definition AddCloneManually :: "bool \<Rightarrow> HInstructionCloner \<Rightarrow> ptr \<Rightarrow> ptr \<Rightarrow> abort + HInstructionCloner" where
  "AddCloneManually kIsDebugBuild c original clone =
     (if kIsDebugBuild \<and> (original = nullptr \<or> clone = nullptr) then Inl DCheckFailed
      else if kIsDebugBuild \<and> orig_to_clone c original \<noteq> None then Inl DCheckFailed
      else Inr (c\<lparr> orig_to_clone :=
                     (if orig_to_clone c original = None
                      then (orig_to_clone c)(original \<mapsto> clone) else orig_to_clone c),
                   manual_clones :=
                     (if kIsDebugBuild then insert original (manual_clones c)
                      else manual_clones c) \<rparr>))"

text \<open>\<open>GetDebugNameForFailedClone\<close>: asserts that the pass has failed.\<close>

definition GetDebugNameForFailedClone :: "bool \<Rightarrow> HInstructionCloner \<Rightarrow> abort + string option" where
  "GetDebugNameForFailedClone kIsDebugBuild c =
     (if kIsDebugBuild \<and> all_cloned_okay c then Inl DCheckFailed
      else Inr (debug_name_failed_clone c))"

text \<open>
  Modelled from the spec: the body of \<open>AllOkay()\<close> is in cloning.cc, which is not
  among the sources (cloning.h only declares it). The spec has it report whether the
  pass met no failed node; the one field that records this is \<open>all_cloned_okay_\<close>,
  which \<open>GetDebugNameForFailedClone\<close> asserts to be false.
\<close>

definition AllOkay :: "HInstructionCloner \<Rightarrow> bool" where
  "AllOkay c = all_cloned_okay c"

subsection \<open>The dispatch over node kinds\<close>

text \<open>
  The header overrides one \<open>Visit\<close> method per kind it knows. Fifteen of them are
  defined inline and call \<open>UnsupportedInstruction\<close>; the others are only declared
  (their bodies clone). Any other kind reaches \<open>VisitInstruction\<close>.
\<close>

definition unsupported_kinds :: "string list" where
  "unsupported_kinds =
     [''AddLHSMemory'', ''AddRHSMemory'', ''CurrentMethod'', ''DivRHSMemory'',
      ''DoubleConstant'', ''Exit'', ''FloatConstant'', ''IntConstant'', ''LongConstant'',
      ''MulRHSMemory'', ''NullConstant'', ''ParallelMove'', ''ParameterValue'',
      ''SubRHSMemory'', ''X86ComputeBaseMethodAddress'']"

definition cloneable_kinds :: "string list" where
  "cloneable_kinds =
     [''Above'', ''AboveOrEqual'', ''Add'', ''And'', ''ArrayGet'', ''ArrayLength'',
      ''ArraySet'', ''Below'', ''BelowOrEqual'', ''BooleanNot'', ''BoundsCheck'',
      ''BoundType'', ''CheckCast'', ''ClassTableGet'', ''ClearException'', ''ClinitCheck'',
      ''Compare'', ''Deoptimize'', ''DevirtGuard'', ''Div'', ''DivZeroCheck'', ''Equal'',
      ''Goto'', ''GreaterThan'', ''GreaterThanOrEqual'', ''If'', ''InstanceFieldGet'',
      ''InstanceFieldSet'', ''InstanceOf'', ''InvokeInterface'', ''InvokeStaticOrDirect'',
      ''InvokeVirtual'', ''InvokeUnresolved'', ''LessThan'', ''LessThanOrEqual'',
      ''LoadClass'', ''LoadException'', ''LoadString'', ''MemoryBarrier'',
      ''MonitorOperation'', ''Mul'', ''NativeDebugInfo'', ''Neg'', ''NewArray'',
      ''NewInstance'', ''Not'', ''NotEqual'', ''NullCheck'', ''Or'', ''PackedSwitch'',
      ''Phi'', ''Rem'', ''Return'', ''ReturnVoid'', ''Ror'', ''Select'', ''Shl'', ''Shr'',
      ''StaticFieldGet'', ''StaticFieldSet'', ''Sub'', ''Suspend'', ''SuspendCheck'',
      ''TestSuspend'', ''Throw'', ''TryBoundary'', ''TypeConversion'', ''UShr'',
      ''UnresolvedInstanceFieldGet'', ''UnresolvedInstanceFieldSet'',
      ''UnresolvedStaticFieldGet'', ''UnresolvedStaticFieldSet'', ''Xor'',
      ''X86SelectValue'', ''X86ProfileInvoke'', ''X86IncrementExecutionCount'',
      ''X86LoadFromConstantTable'', ''X86FPNeg'', ''X86PackedSwitch'',
      ''X86BoundsCheckMemory'']"

text \<open>
  Modelled from the spec: the bodies of the \<open>Visit\<close> methods of the cloneable kinds
  are in cloning.cc, which is not among the sources. Per the spec, with cloning
  enabled a cloneable visit produces a new node and registers \<open>(node, clone)\<close> in the
  clone map (through \<open>CommitClone\<close>); with cloning disabled it has no side effect
  (the constructor's comment: \<open>false\<close> to see if cloning is possible).
  The new node the arena hands out for an original is the parameter \<open>new_clone\<close>.
\<close>

definition VisitCloneable :: "bool \<Rightarrow> (HInstruction \<Rightarrow> ptr) \<Rightarrow> HInstructionCloner \<Rightarrow> HInstruction \<Rightarrow> abort + HInstructionCloner" where
  "VisitCloneable kIsDebugBuild new_clone c instr =
     (if cloning_enabled c then CommitClone kIsDebugBuild c (addr instr) (new_clone instr)
      else Inr c)"

text \<open>\<open>instruction->Accept(cloner)\<close>: the visit of one node, by its kind.\<close>

definition Visit :: "bool \<Rightarrow> (HInstruction \<Rightarrow> ptr) \<Rightarrow> HInstructionCloner \<Rightarrow> HInstruction \<Rightarrow> abort + HInstructionCloner" where
  "Visit kIsDebugBuild new_clone c instr =
     (if DebugName instr \<in> set unsupported_kinds then Inr (UnsupportedInstruction c instr)
      else if DebugName instr \<in> set cloneable_kinds then VisitCloneable kIsDebugBuild new_clone c instr
      else VisitInstruction kIsDebugBuild c instr)"

text \<open>A cloning pass visits nodes one after the other; an abort ends it.\<close>

fun VisitAll :: "bool \<Rightarrow> (HInstruction \<Rightarrow> ptr) \<Rightarrow> HInstructionCloner \<Rightarrow> HInstruction list \<Rightarrow> abort + HInstructionCloner" where
  "VisitAll kIsDebugBuild new_clone c [] = Inr c"
| "VisitAll kIsDebugBuild new_clone c (n # ns) =
     (case Visit kIsDebugBuild new_clone c n of
        Inl e \<Rightarrow> Inl e
      | Inr c' \<Rightarrow> VisitAll kIsDebugBuild new_clone c' ns)"

text \<open>
  The nodes of a pass that took the unsupported path, that is, whose visit called
  \<open>UnsupportedInstruction\<close>: the fifteen kinds above, and in a release build every
  kind the cloner does not know.
\<close>

definition took_unsupported_path :: "bool \<Rightarrow> HInstruction \<Rightarrow> bool" where
  "took_unsupported_path kIsDebugBuild instr \<longleftrightarrow>
     DebugName instr \<in> set unsupported_kinds \<or>
     (DebugName instr \<notin> set cloneable_kinds \<and> \<not> kIsDebugBuild)"

section \<open>The profiling record (profiling_info.cc)\<close>

type_synonym u16 = "16 word"
type_synonym u32 = "32 word"

text \<open>
  An inline cache: the call site's offset and \<open>kIndividualCacheSize\<close> class roots,
  the null pointer in an empty slot. profiling_info.h, which fixes the capacity, is not
  among the sources, so the capacity is a parameter of every operation that names it.
  Fields are named as in the source, without the trailing underscore; the two
  \<open>dex_pc_\<close> fields are \<open>cache_dex_pc\<close> and \<open>bb_dex_pc\<close>, and \<open>method_\<close> is
  \<open>art_method\<close>.
\<close>

record InlineCache =
  cache_dex_pc :: u32
  classes :: "ptr list"

record BBCounts =
  bb_dex_pc :: u32
  count :: u32

text \<open>
  The opcodes \<open>Create\<close> tells apart; every other opcode of the instruction set is
  \<open>OTHER_OPCODE\<close> (the \<open>default\<close> of its switch).
\<close>

datatype Code =
    INVOKE_VIRTUAL | INVOKE_VIRTUAL_RANGE | INVOKE_VIRTUAL_QUICK | INVOKE_VIRTUAL_RANGE_QUICK
  | INVOKE_INTERFACE | INVOKE_INTERFACE_RANGE
  | GOTO | GOTO_16 | GOTO_32
  | IF_EQ | IF_NE | IF_GT | IF_GE | IF_LT | IF_LE
  | IF_EQZ | IF_NEZ | IF_GTZ | IF_GEZ | IF_LTZ | IF_LEZ
  | PACKED_SWITCH | SPARSE_SWITCH
  | OTHER_OPCODE

text \<open>
  What \<open>Create\<close> asks of a decoded instruction. dex_instruction.h is not among the
  sources, so the decoder \<open>Instruction::At\<close> is a parameter: it maps the code units and
  the index of an instruction's first unit to this view. \<open>GetTargetOffset\<close> and
  \<open>VRegB_31t\<close> are \<open>int32_t\<close>, kept as their 32 bits.
\<close>

record Instruction =
  Opcode :: Code
  SizeInCodeUnits :: nat
  GetTargetOffset :: u32
  VRegB_31t :: u32

type_synonym decoder = "u16 list \<Rightarrow> nat \<Rightarrow> Instruction"

text \<open>
  A try item, with the handler addresses \<open>CatchHandlerIterator\<close> yields for it, in
  order; and the code item: the code units and the try items.
\<close>

record TryItem =
  start_addr :: u32
  insn_count :: u16
  handlers :: "u32 list"

record CodeItem =
  insns :: "u16 list"
  tries :: "TryItem list"

text \<open>What \<open>Create\<close> and the constructor ask of the method.\<close>

record ArtMethod =
  IsNative :: bool
  IsCopied :: bool
  GetDeclaringClass :: ptr
  GetHoldingClassOfCopiedMethod :: ptr
  GetCodeItem :: CodeItem

record ProfilingInfo =
  cache :: "InlineCache list"
  bb_counts :: "BBCounts list"
  art_method :: ArtMethod
  is_method_being_compiled :: bool
  is_osr_method_being_compiled :: bool
  current_inline_uses :: nat
  saved_entry_point :: ptr
  holding_class :: ptr

text \<open>The two arrays carry their lengths in \<open>number_of_inline_caches_\<close> and
  \<open>number_of_bb_counts_\<close>.\<close>

definition number_of_inline_caches :: "ProfilingInfo \<Rightarrow> nat" where
  "number_of_inline_caches info = length (cache info)"

definition number_of_bb_counts :: "ProfilingInfo \<Rightarrow> nat" where
  "number_of_bb_counts info = length (bb_counts info)"

text \<open>
  The constructor: zeroed caches with the offsets of \<open>entries\<close>, zeroed counters with
  the offsets of \<open>dex_pcs\<close>, and the holding class, asserted non-null in a debug build.
\<close>

definition new_ProfilingInfo :: "bool \<Rightarrow> nat \<Rightarrow> ArtMethod \<Rightarrow> u32 list \<Rightarrow> u32 list \<Rightarrow> abort + ProfilingInfo" where
  "new_ProfilingInfo kIsDebugBuild kIndividualCacheSize m entries dex_pcs =
     (let info =
        \<lparr> cache = map (\<lambda>e. \<lparr> cache_dex_pc = e,
                                classes = replicate kIndividualCacheSize nullptr \<rparr>) entries,
          bb_counts = map (\<lambda>pc. \<lparr> bb_dex_pc = pc, count = 0 \<rparr>) dex_pcs,
          art_method = m,
          is_method_being_compiled = False,
          is_osr_method_being_compiled = False,
          current_inline_uses = 0,
          saved_entry_point = nullptr,
          holding_class =
            (if IsCopied m then GetHoldingClassOfCopiedMethod m else GetDeclaringClass m) \<rparr>
      in if kIsDebugBuild \<and> holding_class info = nullptr then Inl DCheckFailed
         else Inr info)"

subsection \<open>GetInlineCache and AddInvokeInfo\<close>

text \<open>\<open>GetInlineCache\<close>: the index of the first cache with the offset, if any.\<close>

function GetInlineCache_from :: "ProfilingInfo \<Rightarrow> u32 \<Rightarrow> nat \<Rightarrow> nat option" where
  "GetInlineCache_from info dex_pc i =
     (if i < number_of_inline_caches info then
        (if cache_dex_pc (cache info ! i) = dex_pc then Some i
         else GetInlineCache_from info dex_pc (i + 1))
      else None)"
  by pat_completeness auto
termination
  by (relation "measure (\<lambda>(info, dex_pc, i). number_of_inline_caches info - i)") auto

definition GetInlineCache :: "ProfilingInfo \<Rightarrow> u32 \<Rightarrow> nat option" where
  "GetInlineCache info dex_pc = GetInlineCache_from info dex_pc 0"

text \<open>
  The atomic compare-and-exchange on one slot, as a sequential step: success and the
  slot's new content.
\<close>

definition CompareExchangeStrong :: "ptr \<Rightarrow> ptr \<Rightarrow> ptr \<Rightarrow> bool \<times> ptr" where
  "CompareExchangeStrong slot expected desired =
     (if slot = expected then (True, desired) else (False, slot))"

text \<open>
  The loop of \<open>AddInvokeInfo\<close> over the slots of one cache, from slot \<open>i\<close>. It returns
  the slots and whether it published \<open>cls\<close>. After a lost exchange the source steps
  back (\<open>--i\<close>) so that the same slot is read again.
\<close>

function AddInvokeInfo_loop :: "nat \<Rightarrow> ptr list \<Rightarrow> ptr \<Rightarrow> nat \<Rightarrow> ptr list \<times> bool" where
  "AddInvokeInfo_loop kIndividualCacheSize cs cls i =
     (if i < kIndividualCacheSize then
        (if cs ! i = cls then (cs, False)
         else if cs ! i = nullptr then
           (if \<not> fst (CompareExchangeStrong (cs ! i) nullptr cls)
            then AddInvokeInfo_loop kIndividualCacheSize cs cls i
            else (cs[i := snd (CompareExchangeStrong (cs ! i) nullptr cls)], True))
         else AddInvokeInfo_loop kIndividualCacheSize cs cls (i + 1))
      else (cs, False))"
  by pat_completeness auto
termination
  by (relation "measure (\<lambda>(k, cs, cls, i). k - i)")
     (auto simp: CompareExchangeStrong_def)

text \<open>
  \<open>AddInvokeInfo\<close> returns the record and the write-barrier calls it made on the heap
  (\<open>WriteBarrierEveryFieldOf\<close>, each with the class it was given).
\<close>

definition AddInvokeInfo :: "nat \<Rightarrow> ProfilingInfo \<Rightarrow> u32 \<Rightarrow> ptr \<Rightarrow> abort + (ProfilingInfo \<times> ptr list)" where
  "AddInvokeInfo kIndividualCacheSize info dex_pc cls =
     (case GetInlineCache info dex_pc of
        None \<Rightarrow> Inl CheckFailed
      | Some j \<Rightarrow>
          (let (cs, published) =
                 AddInvokeInfo_loop kIndividualCacheSize (classes (cache info ! j)) cls 0
           in Inr (info\<lparr> cache := (cache info)[j := (cache info ! j)\<lparr> classes := cs \<rparr>] \<rparr>,
                   if published \<and> holding_class info \<noteq> nullptr
                   then [holding_class info] else [])))"

subsection \<open>IncrementBBCount\<close>

function IncrementBBCount_from :: "bool \<Rightarrow> ProfilingInfo \<Rightarrow> u32 \<Rightarrow> nat \<Rightarrow> abort + ProfilingInfo" where
  "IncrementBBCount_from kIsDebugBuild info dex_pc i =
     (if i < number_of_bb_counts info then
        (if bb_dex_pc (bb_counts info ! i) = dex_pc then
           (if count (bb_counts info ! i) \<noteq> 0xFFFFFFFF
            then Inr (info\<lparr> bb_counts := (bb_counts info)
                         [i := (bb_counts info ! i)\<lparr> count := count (bb_counts info ! i) + 1 \<rparr>] \<rparr>)
            else Inr info)
         else IncrementBBCount_from kIsDebugBuild info dex_pc (i + 1))
      else if kIsDebugBuild then Inl DCheckFailed
      else Inr info)"
  by pat_completeness auto
termination
  by (relation "measure (\<lambda>(d, info, dex_pc, i). number_of_bb_counts info - i)") auto

definition IncrementBBCount :: "bool \<Rightarrow> ProfilingInfo \<Rightarrow> u32 \<Rightarrow> abort + ProfilingInfo" where
  "IncrementBBCount kIsDebugBuild info dex_pc = IncrementBBCount_from kIsDebugBuild info dex_pc 0"

text \<open>Sequences of calls: the first abort ends the run.\<close>

fun IncrementBBCount_all :: "bool \<Rightarrow> ProfilingInfo \<Rightarrow> u32 list \<Rightarrow> abort + ProfilingInfo" where
  "IncrementBBCount_all kIsDebugBuild info [] = Inr info"
| "IncrementBBCount_all kIsDebugBuild info (pc # pcs) =
     (case IncrementBBCount kIsDebugBuild info pc of
        Inl e \<Rightarrow> Inl e
      | Inr info' \<Rightarrow> IncrementBBCount_all kIsDebugBuild info' pcs)"

fun AddInvokeInfo_all :: "nat \<Rightarrow> ProfilingInfo \<Rightarrow> (u32 \<times> ptr) list \<Rightarrow> abort + (ProfilingInfo \<times> ptr list)" where
  "AddInvokeInfo_all kIndividualCacheSize info [] = Inr (info, [])"
| "AddInvokeInfo_all kIndividualCacheSize info ((pc, cls) # calls) =
     (case AddInvokeInfo kIndividualCacheSize info pc cls of
        Inl e \<Rightarrow> Inl e
      | Inr (info', ws) \<Rightarrow>
          (case AddInvokeInfo_all kIndividualCacheSize info' calls of
             Inl e \<Rightarrow> Inl e
           | Inr (info'', ws') \<Rightarrow> Inr (info'', ws @ ws')))"

subsection \<open>Create\<close>

text \<open>
  Reads of the code units through a pointer computed from an operand. A read outside the
  units is undefined in the source and an abort here. A 32-bit value takes two units,
  the low half first.
\<close>

definition read_unit :: "u16 list \<Rightarrow> int \<Rightarrow> abort + u16" where
  "read_unit units j =
     (if 0 \<le> j \<and> j < int (length units) then Inr (units ! nat j) else Inl OutOfBounds)"

definition read_int32 :: "u16 list \<Rightarrow> int \<Rightarrow> abort + u32" where
  "read_int32 units j =
     (case read_unit units j of
        Inl e \<Rightarrow> Inl e
      | Inr lo \<Rightarrow>
          (case read_unit units (j + 1) of
             Inl e \<Rightarrow> Inl e
           | Inr hi \<Rightarrow> Inr (push_bit 16 (ucast hi) + ucast lo)))"

text \<open>
  The loop over the \<open>sz\<close> targets (\<open>size\<close> in the source) of a switch table whose first target starts at
  unit \<open>table\<close>: \<open>dex_pc_bb_starts.insert(dex_pc + targets[i])\<close>.
\<close>

function insert_targets :: "u16 list \<Rightarrow> int \<Rightarrow> u32 \<Rightarrow> nat \<Rightarrow> nat \<Rightarrow> u32 set \<Rightarrow> abort + u32 set" where
  "insert_targets units table dex_pc sz i starts =
     (if i < sz then
        (case read_int32 units (table + 2 * int i) of
           Inl e \<Rightarrow> Inl e
         | Inr target \<Rightarrow>
             insert_targets units table dex_pc sz (i + 1) (insert (dex_pc + target) starts))
      else Inr starts)"
  by pat_completeness auto
termination
  by (relation "measure (\<lambda>(units, table, dex_pc, sz, i, starts). sz - i)") auto

text \<open>
  The body of the \<open>switch\<close> on the opcode, for the instruction whose first unit has
  index \<open>p\<close>: it appends to \<open>entries\<close> or inserts into \<open>dex_pc_bb_starts\<close>.
  The switch payload starts \<open>VRegB_31t\<close> units from the instruction; its second unit
  is the number of targets; the targets of a packed switch start at its fifth unit, those
  of a sparse switch after its \<open>size\<close> keys.
\<close>

definition Create_switch :: "u16 list \<Rightarrow> nat \<Rightarrow> u32 \<Rightarrow> Instruction \<Rightarrow> u32 list \<Rightarrow> u32 set \<Rightarrow> abort + u32 list \<times> u32 set" where
  "Create_switch units p dex_pc instruction entries starts =
     (if Opcode instruction \<in> {INVOKE_VIRTUAL, INVOKE_VIRTUAL_RANGE, INVOKE_VIRTUAL_QUICK,
                                 INVOKE_VIRTUAL_RANGE_QUICK, INVOKE_INTERFACE,
                                 INVOKE_INTERFACE_RANGE}
      then Inr (entries @ [dex_pc], starts)
      else if Opcode instruction \<in> {GOTO, GOTO_16, GOTO_32}
      then Inr (entries, insert (dex_pc + GetTargetOffset instruction) starts)
      else if Opcode instruction \<in> {IF_EQ, IF_NE, IF_GT, IF_GE, IF_LT, IF_LE,
                                      IF_EQZ, IF_NEZ, IF_GTZ, IF_GEZ, IF_LTZ, IF_LEZ}
      then Inr (entries,
                insert (dex_pc + GetTargetOffset instruction)
                  (insert (dex_pc + of_nat (SizeInCodeUnits instruction)) starts))
      else if Opcode instruction = PACKED_SWITCH
      then (let switch_data = int p + sint (VRegB_31t instruction) in
            case read_unit units (switch_data + 1) of
              Inl e \<Rightarrow> Inl e
            | Inr sz \<Rightarrow>
                (case insert_targets units (switch_data + 4) dex_pc (unat sz) 0
                        (insert (dex_pc + 3) starts) of
                   Inl e \<Rightarrow> Inl e
                 | Inr starts' \<Rightarrow> Inr (entries, starts')))
      else if Opcode instruction = SPARSE_SWITCH
      then (let switch_data = int p + sint (VRegB_31t instruction) in
            case read_unit units (switch_data + 1) of
              Inl e \<Rightarrow> Inl e
            | Inr sz \<Rightarrow>
                (case insert_targets units (switch_data + 2 + 2 * int (unat sz)) dex_pc
                        (unat sz) 0 (insert (dex_pc + 3) starts) of
                   Inl e \<Rightarrow> Inl e
                 | Inr starts' \<Rightarrow> Inr (entries, starts')))
      else Inr (entries, starts))"

text \<open>
  The scan \<open>while (code_ptr < code_end)\<close>, with \<open>code_ptr\<close> as the index \<open>p\<close>.
  Nothing in the loop makes it end when an instruction has size 0, so not returning is
  a possible outcome (\<open>None\<close>).
\<close>

partial_function (option) Create_loop :: "decoder \<Rightarrow> u16 list \<Rightarrow> nat \<Rightarrow> u32 \<Rightarrow> u32 list \<Rightarrow> u32 set \<Rightarrow> (abort + u32 list \<times> u32 set) option" where
  "Create_loop At units p dex_pc entries starts =
     (if p < length units then
        (case Create_switch units p dex_pc (At units p) entries starts of
           Inl e \<Rightarrow> Some (Inl e)
         | Inr (entries', starts') \<Rightarrow>
             Create_loop At units (p + SizeInCodeUnits (At units p))
               (dex_pc + of_nat (SizeInCodeUnits (At units p))) entries' starts')
      else Some (Inr (entries, starts)))"

text \<open>The catch clauses: every handler address of every try item.\<close>

definition add_catch_clauses :: "TryItem list \<Rightarrow> u32 set \<Rightarrow> u32 set" where
  "add_catch_clauses ts starts = fold (\<lambda>try_item. fold insert (handlers try_item)) ts starts"

text \<open>
  \<open>Create\<close>, up to its last line: the result is the pair of vectors \<open>entries\<close> and
  \<open>dex_pcs\<close> it passes to \<open>JitCodeCache::AddProfilingInfo\<close>, which allocates and
  runs the constructor (or fails to allocate). Iterating the \<open>std::set\<close> lists its
  elements in ascending unsigned order.
\<close>

definition Create :: "bool \<Rightarrow> decoder \<Rightarrow> ArtMethod \<Rightarrow> (abort + u32 list \<times> u32 list) option" where
  "Create kIsDebugBuild At m =
     (if kIsDebugBuild \<and> IsNative m then Some (Inl DCheckFailed)
      else
        (case Create_loop At (insns (GetCodeItem m)) 0 0 [] {0} of
           None \<Rightarrow> None
         | Some (Inl e) \<Rightarrow> Some (Inl e)
         | Some (Inr (entries, starts)) \<Rightarrow>
             Some (Inr (entries,
                        sorted_list_of_set (add_catch_clauses (tries (GetCodeItem m)) starts)))))"

subsection \<open>Runs of both updaters\<close>

datatype profile_op = AddInvoke u32 ptr | IncrementBB u32

fun apply_ops :: "bool \<Rightarrow> nat \<Rightarrow> ProfilingInfo \<Rightarrow> profile_op list \<Rightarrow> abort + ProfilingInfo" where
  "apply_ops kIsDebugBuild kIndividualCacheSize info [] = Inr info"
| "apply_ops kIsDebugBuild kIndividualCacheSize info (AddInvoke pc cls # ops) =
     (case AddInvokeInfo kIndividualCacheSize info pc cls of
        Inl e \<Rightarrow> Inl e
      | Inr (info', ws) \<Rightarrow> apply_ops kIsDebugBuild kIndividualCacheSize info' ops)"
| "apply_ops kIsDebugBuild kIndividualCacheSize info (IncrementBB pc # ops) =
     (case IncrementBBCount kIsDebugBuild info pc of
        Inl e \<Rightarrow> Inl e
      | Inr info' \<Rightarrow> apply_ops kIsDebugBuild kIndividualCacheSize info' ops)"

section \<open>The block starts, as the specification lists them\<close>

text \<open>
  The offsets of the instructions of a method: the linear decoding from offset \<open>p\<close>
  (from 0 for the whole method), each instruction followed by the one that starts
  where it ends.
\<close>

inductive_set offsets_from :: "decoder \<Rightarrow> u16 list \<Rightarrow> nat \<Rightarrow> nat set"
  for At :: decoder and units :: "u16 list" and p :: nat where
  start: "p < length units \<Longrightarrow> p \<in> offsets_from At units p"
| step: "q \<in> offsets_from At units p \<Longrightarrow>
         q + SizeInCodeUnits (At units q) < length units \<Longrightarrow>
         q + SizeInCodeUnits (At units q) \<in> offsets_from At units p"

definition is_invoke :: "Instruction \<Rightarrow> bool" where
  "is_invoke i \<longleftrightarrow> Opcode i \<in> {INVOKE_VIRTUAL, INVOKE_VIRTUAL_RANGE, INVOKE_VIRTUAL_QUICK,
                                 INVOKE_VIRTUAL_RANGE_QUICK, INVOKE_INTERFACE,
                                 INVOKE_INTERFACE_RANGE}"

definition is_goto :: "Instruction \<Rightarrow> bool" where
  "is_goto i \<longleftrightarrow> Opcode i \<in> {GOTO, GOTO_16, GOTO_32}"

definition is_conditional :: "Instruction \<Rightarrow> bool" where
  "is_conditional i \<longleftrightarrow> Opcode i \<in> {IF_EQ, IF_NE, IF_GT, IF_GE, IF_LT, IF_LE,
                                      IF_EQZ, IF_NEZ, IF_GTZ, IF_GEZ, IF_LTZ, IF_LEZ}"

definition is_switch :: "Instruction \<Rightarrow> bool" where
  "is_switch i \<longleftrightarrow> Opcode i \<in> {PACKED_SWITCH, SPARSE_SWITCH}"

text \<open>
  The payload of the switch at offset \<open>p\<close>: where it starts, how many targets it
  has, where its first target starts, and that all of it lies in the code units (a
  packed payload has four units before its targets, a sparse one two units and then as
  many keys as targets). The 32-bit value at a unit index is read low half first.
\<close>

definition payload_start :: "nat \<Rightarrow> Instruction \<Rightarrow> int" where
  "payload_start p i = int p + sint (VRegB_31t i)"

definition payload_size :: "u16 list \<Rightarrow> nat \<Rightarrow> Instruction \<Rightarrow> nat" where
  "payload_size units p i = unat (units ! nat (payload_start p i + 1))"

definition first_target :: "u16 list \<Rightarrow> nat \<Rightarrow> Instruction \<Rightarrow> nat" where
  "first_target units p i =
     (if Opcode i = PACKED_SWITCH then nat (payload_start p i) + 4
      else nat (payload_start p i) + 2 + 2 * payload_size units p i)"

definition payload_in_bounds :: "u16 list \<Rightarrow> nat \<Rightarrow> Instruction \<Rightarrow> bool" where
  "payload_in_bounds units p i \<longleftrightarrow>
     0 \<le> payload_start p i \<and> payload_start p i + 1 < int (length units) \<and>
     first_target units p i + 2 * payload_size units p i \<le> length units"

definition int32_at :: "u16 list \<Rightarrow> nat \<Rightarrow> u32" where
  "int32_at units j = push_bit 16 (ucast (units ! (j + 1))) + ucast (units ! j)"

definition case_targets :: "u16 list \<Rightarrow> nat \<Rightarrow> Instruction \<Rightarrow> u32 set" where
  "case_targets units p i =
     (\<lambda>n. of_nat p + int32_at units (first_target units p i + 2 * n)) ` {..< payload_size units p i}"

text \<open>
  The block starts one instruction at offset \<open>p\<close> accounts for: the target of a goto;
  the fall-through and the target of a conditional branch; the offset after a switch and
  its case targets; nothing for any other instruction.
\<close>

definition branch_starts :: "u16 list \<Rightarrow> nat \<Rightarrow> Instruction \<Rightarrow> u32 set" where
  "branch_starts units p i =
     (if is_goto i then {of_nat p + GetTargetOffset i}
      else if is_conditional i
      then {of_nat p + of_nat (SizeInCodeUnits i), of_nat p + GetTargetOffset i}
      else if is_switch i
      then insert (of_nat p + of_nat (SizeInCodeUnits i)) (case_targets units p i)
      else {})"

definition block_starts :: "decoder \<Rightarrow> CodeItem \<Rightarrow> u32 set" where
  "block_starts At code_item =
     {0} \<union>
     (\<Union>p \<in> offsets_from At (insns code_item) 0.
         branch_starts (insns code_item) p (At (insns code_item) p)) \<union>
     (\<Union>t \<in> set (tries code_item). set (handlers t))"

text \<open>
  What the decoder of a well-formed method guarantees: every instruction takes at least
  one unit, a switch instruction takes three, and the payload of every switch of the
  method lies in its code units.
\<close>

definition positive_sizes :: "decoder \<Rightarrow> u16 list \<Rightarrow> bool" where
  "positive_sizes At units \<longleftrightarrow> (\<forall>p < length units. 0 < SizeInCodeUnits (At units p))"

definition switches_well_formed :: "decoder \<Rightarrow> u16 list \<Rightarrow> bool" where
  "switches_well_formed At units \<longleftrightarrow>
     (\<forall>p \<in> offsets_from At units 0.
        is_switch (At units p) \<longrightarrow>
          SizeInCodeUnits (At units p) = 3 \<and> payload_in_bounds units p (At units p))"

text \<open>
  What a run of increments may do to the counters: the offsets stay as they are, entry
  by entry, and no counter, read as an unsigned number, gets smaller.
\<close>

definition counts_grow :: "ProfilingInfo \<Rightarrow> ProfilingInfo \<Rightarrow> bool" where
  "counts_grow info info' \<longleftrightarrow>
     map bb_dex_pc (bb_counts info') = map bb_dex_pc (bb_counts info) \<and>
     (\<forall>n < length (bb_counts info).
        unat (count (bb_counts info ! n)) \<le> unat (count (bb_counts info' ! n)))"

section \<open>Sample inputs\<close>

text \<open>Concrete methods, records, cloners and nodes for the examples.\<close>

text \<open>
  A decoder for the samples. It reads the opcode in the low byte of the first unit and
  knows \<open>goto/16\<close> (0x29), \<open>packed-switch\<close> (0x2b), \<open>if-eq\<close> (0x32) and
  \<open>invoke-virtual\<close> (0x6e) with their operands; every other unit is a one-unit
  instruction of no interest.
\<close>

definition sample_At :: decoder where
  "sample_At units p =
     (if take_bit 8 (units ! p) = 0x29
      then \<lparr> Opcode = GOTO_16, SizeInCodeUnits = 2,
             GetTargetOffset = scast (units ! (p + 1)), VRegB_31t = 0 \<rparr>
      else if take_bit 8 (units ! p) = 0x2b
      then \<lparr> Opcode = PACKED_SWITCH, SizeInCodeUnits = 3, GetTargetOffset = 0,
             VRegB_31t = push_bit 16 (ucast (units ! (p + 2))) + ucast (units ! (p + 1)) \<rparr>
      else if take_bit 8 (units ! p) = 0x32
      then \<lparr> Opcode = IF_EQ, SizeInCodeUnits = 2,
             GetTargetOffset = scast (units ! (p + 1)), VRegB_31t = 0 \<rparr>
      else if take_bit 8 (units ! p) = 0x6e
      then \<lparr> Opcode = INVOKE_VIRTUAL, SizeInCodeUnits = 3, GetTargetOffset = 0,
             VRegB_31t = 0 \<rparr>
      else \<lparr> Opcode = OTHER_OPCODE, SizeInCodeUnits = 1, GetTargetOffset = 0,
             VRegB_31t = 0 \<rparr>)"

text \<open>
  A method of 31 units whose one branch is an \<open>if-eq\<close> at offset 10, two units long,
  with target offset \<open>+20\<close>, and which has no try item.
\<close>

definition branch_code :: CodeItem where
  "branch_code =
     \<lparr> insns = [0, 0, 0, 0, 0, 0, 0, 0, 0, 0, 0x0032, 0x0014,
                0, 0, 0, 0, 0, 0, 0, 0, 0, 0, 0, 0, 0, 0, 0, 0, 0, 0, 0],
       tries = [] \<rparr>"

text \<open>
  A method with an \<open>invoke-virtual\<close> at offset 0, a \<open>packed-switch\<close> at offset 3
  whose payload starts at offset 8 (two targets, \<open>+5\<close> and \<open>+3\<close>), a \<open>goto/16\<close>
  back to offset 0 at offset 6, and one try item with a handler at offset 7.
\<close>

definition switch_code :: CodeItem where
  "switch_code =
     \<lparr> insns = [0x006e, 0, 0,  0x002b, 5, 0,  0x0029, 0xFFFA,
                0x0100, 2, 0, 0, 5, 0, 3, 0],
       tries = [\<lparr> start_addr = 0, insn_count = 6, handlers = [7] \<rparr>] \<rparr>"

definition sample_method :: ArtMethod where
  "sample_method = \<lparr> IsNative = False, IsCopied = False, GetDeclaringClass = 7,
                     GetHoldingClassOfCopiedMethod = nullptr, GetCodeItem = switch_code \<rparr>"

definition branch_method :: ArtMethod where
  "branch_method = \<lparr> IsNative = False, IsCopied = False, GetDeclaringClass = 7,
                     GetHoldingClassOfCopiedMethod = nullptr, GetCodeItem = branch_code \<rparr>"

definition sample_info :: ProfilingInfo where
  "sample_info =
     \<lparr> cache = [\<lparr> cache_dex_pc = 4, classes = [nullptr, nullptr] \<rparr>],
       bb_counts = [\<lparr> bb_dex_pc = 0, count = 0xFFFFFFFF \<rparr>, \<lparr> bb_dex_pc = 12, count = 5 \<rparr>],
       art_method = sample_method,
       is_method_being_compiled = False,
       is_osr_method_being_compiled = False,
       current_inline_uses = 0,
       saved_entry_point = nullptr,
       holding_class = 7 \<rparr>"

text \<open>A record with two call sites, at offsets 0 and 4, each cache with two empty slots.\<close>

definition two_site_info :: ProfilingInfo where
  "two_site_info =
     \<lparr> cache = [\<lparr> cache_dex_pc = 0, classes = [nullptr, nullptr] \<rparr>,
                \<lparr> cache_dex_pc = 4, classes = [nullptr, nullptr] \<rparr>],
       bb_counts = [\<lparr> bb_dex_pc = 0, count = 0 \<rparr>],
       art_method = sample_method,
       is_method_being_compiled = False,
       is_osr_method_being_compiled = False,
       current_inline_uses = 0,
       saved_entry_point = nullptr,
       holding_class = 7 \<rparr>"

text \<open>A method whose declaring class is the null reference.\<close>

definition classless_method :: ArtMethod where
  "classless_method = \<lparr> IsNative = False, IsCopied = False, GetDeclaringClass = nullptr,
                        GetHoldingClassOfCopiedMethod = nullptr, GetCodeItem = switch_code \<rparr>"

text \<open>
  The record the release-build constructor makes for it from the vectors of \<open>Create\<close>,
  with two slots per cache.
\<close>

definition classless_info :: ProfilingInfo where
  "classless_info =
     \<lparr> cache = [\<lparr> cache_dex_pc = 0, classes = [nullptr, nullptr] \<rparr>],
       bb_counts = [\<lparr> bb_dex_pc = 0, count = 0 \<rparr>, \<lparr> bb_dex_pc = 6, count = 0 \<rparr>,
                    \<lparr> bb_dex_pc = 7, count = 0 \<rparr>, \<lparr> bb_dex_pc = 8, count = 0 \<rparr>],
       art_method = classless_method,
       is_method_being_compiled = False,
       is_osr_method_being_compiled = False,
       current_inline_uses = 0,
       saved_entry_point = nullptr,
       holding_class = nullptr \<rparr>"

definition sample_cloner :: HInstructionCloner where
  "sample_cloner = new_HInstructionCloner True True False"

definition overwriting_cloner :: HInstructionCloner where
  "overwriting_cloner = new_HInstructionCloner True True True"

definition int_constant_node :: HInstruction where
  "int_constant_node = \<lparr> addr = 1, DebugName = ''IntConstant'' \<rparr>"

definition add_node :: HInstruction where
  "add_node = \<lparr> addr = 2, DebugName = ''Add'' \<rparr>"

definition exit_node :: HInstruction where
  "exit_node = \<lparr> addr = 3, DebugName = ''Exit'' \<rparr>"

definition unknown_node :: HInstruction where
  "unknown_node = \<lparr> addr = 4, DebugName = ''VecAdd'' \<rparr>"

text \<open>The arena hands out the node one hundred addresses further on.\<close>

definition sample_new_clone :: "HInstruction \<Rightarrow> ptr" where
  "sample_new_clone instr = addr instr + 100"

section \<open>Properties of the cloner\<close>

lemma Visit_unsupported:
  "took_unsupported_path dbg n \<Longrightarrow> Visit dbg nc c n = Inr (UnsupportedInstruction c n)"
  by (auto simp: took_unsupported_path_def Visit_def VisitInstruction_def)

lemma Visit_other_flags:
  "\<not> took_unsupported_path dbg n \<Longrightarrow> Visit dbg nc c n = Inr c' \<Longrightarrow>
     all_cloned_okay c' = all_cloned_okay c \<and>
     debug_name_failed_clone c' = debug_name_failed_clone c"
  by (auto simp: took_unsupported_path_def Visit_def VisitInstruction_def VisitCloneable_def
      CommitClone_def split: if_splits)

lemma VisitAll_flags:
  "VisitAll dbg nc c ns = Inr c' \<Longrightarrow>
     all_cloned_okay c' = (all_cloned_okay c \<and> \<not> (\<exists>n \<in> set ns. took_unsupported_path dbg n)) \<and>
     debug_name_failed_clone c' =
       (if \<exists>n \<in> set ns. took_unsupported_path dbg n
        then Some (DebugName (last (filter (took_unsupported_path dbg) ns)))
        else debug_name_failed_clone c)"
proof (induction ns arbitrary: c)
  case Nil
  then show ?case by simp
next
  case (Cons n ns)
  from Cons.prems obtain c1 where v: "Visit dbg nc c n = Inr c1"
    and rest: "VisitAll dbg nc c1 ns = Inr c'"
    by (auto split: sum.splits)
  note ih = Cons.IH [OF rest]
  show ?case
  proof (cases "took_unsupported_path dbg n")
    case True
    with v have c1: "c1 = UnsupportedInstruction c n"
      by (simp add: Visit_unsupported)
    show ?thesis using ih True
      by (auto simp: c1 UnsupportedInstruction_def filter_empty_conv)
  next
    case False
    from Visit_other_flags [OF False v] ih False show ?thesis
      by auto
  qed
qed

text \<open>
  Claim C1, as the code has it. A pass that starts with the flag set and runs to its end
  leaves \<open>AllOkay()\<close> false exactly when some visited node took the unsupported path;
  \<open>GetDebugNameForFailedClone()\<close> then returns the kind name of the last such node in
  visitation order, since \<open>UnsupportedInstruction\<close> overwrites the name on every call.
\<close>

theorem failed_clone_name_is_last_unsupported:
  assumes "all_cloned_okay c" and "VisitAll dbg nc c ns = Inr c'"
  shows "(\<not> AllOkay c' \<longleftrightarrow> (\<exists>n \<in> set ns. took_unsupported_path dbg n)) \<and>
         (\<not> AllOkay c' \<longrightarrow>
            GetDebugNameForFailedClone dbg c' =
              Inr (Some (DebugName (last (filter (took_unsupported_path dbg) ns)))))"
  using VisitAll_flags [OF assms(2)] assms(1)
  by (auto simp: AllOkay_def GetDebugNameForFailedClone_def)

lemma sample_pass:
  "VisitAll True sample_new_clone sample_cloner [int_constant_node, add_node, exit_node] =
     Inr (sample_cloner\<lparr> all_cloned_okay := False,
                          orig_to_clone := [2 \<mapsto> 102],
                          debug_name_failed_clone := Some ''Exit'' \<rparr>)"
  by (simp add: Visit_def VisitCloneable_def CommitClone_def UnsupportedInstruction_def
      unsupported_kinds_def cloneable_kinds_def sample_cloner_def new_HInstructionCloner_def
      int_constant_node_def add_node_def exit_node_def sample_new_clone_def)

theorem failed_clone_name_is_last_unsupported_witness:
  "all_cloned_okay sample_cloner \<and>
   VisitAll True sample_new_clone sample_cloner [int_constant_node, add_node, exit_node] =
     Inr (sample_cloner\<lparr> all_cloned_okay := False,
                          orig_to_clone := [2 \<mapsto> 102],
                          debug_name_failed_clone := Some ''Exit'' \<rparr>) \<and>
   \<not> AllOkay (sample_cloner\<lparr> all_cloned_okay := False,
                          orig_to_clone := [2 \<mapsto> 102],
                          debug_name_failed_clone := Some ''Exit'' \<rparr>) \<and>
   GetDebugNameForFailedClone True
       (sample_cloner\<lparr> all_cloned_okay := False,
                          orig_to_clone := [2 \<mapsto> 102],
                          debug_name_failed_clone := Some ''Exit'' \<rparr>) =
     Inr (Some (DebugName (last (filter (took_unsupported_path True)
                                        [int_constant_node, add_node, exit_node]))))"
proof -
  have start: "all_cloned_okay sample_cloner"
    by (simp add: sample_cloner_def new_HInstructionCloner_def)
  from failed_clone_name_is_last_unsupported [OF start sample_pass] start sample_pass
  show ?thesis
    by (simp add: AllOkay_def)
qed

lemma unsupported_pass:
  "VisitAll True sample_new_clone sample_cloner [int_constant_node, exit_node] =
     Inr (sample_cloner\<lparr> all_cloned_okay := False,
                          debug_name_failed_clone := Some ''Exit'' \<rparr>)"
  by (simp add: Visit_def UnsupportedInstruction_def unsupported_kinds_def
      sample_cloner_def new_HInstructionCloner_def int_constant_node_def exit_node_def)

text \<open>
  The claim names the first unsupported node. On the pass over an \<open>IntConstant\<close> and
  an \<open>Exit\<close> (both visits are defined in the header and call
  \<open>UnsupportedInstruction\<close>) the first unsupported node is the \<open>IntConstant\<close>, and
  the name reported is \<open>Exit\<close>.
\<close>

theorem failed_clone_name_first_counterexample:
  "VisitAll True sample_new_clone sample_cloner [int_constant_node, exit_node] =
     Inr (sample_cloner\<lparr> all_cloned_okay := False,
                          debug_name_failed_clone := Some ''Exit'' \<rparr>) \<and>
   took_unsupported_path True int_constant_node \<and>
   DebugName int_constant_node = ''IntConstant'' \<and>
   \<not> AllOkay (sample_cloner\<lparr> all_cloned_okay := False,
                              debug_name_failed_clone := Some ''Exit'' \<rparr>) \<and>
   GetDebugNameForFailedClone True
       (sample_cloner\<lparr> all_cloned_okay := False,
                          debug_name_failed_clone := Some ''Exit'' \<rparr>) = Inr (Some ''Exit'') \<and>
   GetDebugNameForFailedClone True
       (sample_cloner\<lparr> all_cloned_okay := False,
                          debug_name_failed_clone := Some ''Exit'' \<rparr>) \<noteq>
     Inr (Some (DebugName int_constant_node))"
  using unsupported_pass
  by (simp add: took_unsupported_path_def unsupported_kinds_def int_constant_node_def
      GetDebugNameForFailedClone_def AllOkay_def)

text \<open>
  Claim C7, as the code has it. The assertion in \<open>CommitClone\<close> is a \<open>DCHECK\<close>: in a
  debug build, without \<open>allow_overwrite\<close>, a commit for an original that already has
  an entry is rejected; in a release build it replaces the entry. With
  \<open>allow_overwrite\<close> a second commit replaces the entry in every build, and
  \<open>GetClone\<close> then returns the second clone and no longer the first.
\<close>

theorem CommitClone_second_clone:
  assumes "orig_to_clone c instr = Some clone1"
  shows "(\<not> allow_overwrite c \<and> dbg \<longrightarrow> CommitClone dbg c instr clone2 = Inl DCheckFailed) \<and>
         (allow_overwrite c \<or> \<not> dbg \<longrightarrow>
            CommitClone dbg c instr clone2 =
              Inr (c\<lparr> orig_to_clone := (orig_to_clone c)(instr \<mapsto> clone2) \<rparr>) \<and>
            (clone2 \<noteq> nullptr \<longrightarrow>
               GetClone dbg (c\<lparr> orig_to_clone := (orig_to_clone c)(instr \<mapsto> clone2) \<rparr>) instr
                 = Inr clone2 \<and>
               (clone1 \<noteq> clone2 \<longrightarrow>
                  GetClone dbg (c\<lparr> orig_to_clone := (orig_to_clone c)(instr \<mapsto> clone2) \<rparr>) instr
                    \<noteq> Inr clone1)))"
  using assms by (auto simp: CommitClone_def GetClone_def)

theorem CommitClone_second_clone_witness:
  "orig_to_clone (overwriting_cloner\<lparr> orig_to_clone := [1 \<mapsto> 10] \<rparr>) 1 = Some 10 \<and>
   CommitClone True overwriting_cloner 1 10 =
     Inr (overwriting_cloner\<lparr> orig_to_clone := [1 \<mapsto> 10] \<rparr>) \<and>
   CommitClone True (overwriting_cloner\<lparr> orig_to_clone := [1 \<mapsto> 10] \<rparr>) 1 20 =
     Inr (overwriting_cloner\<lparr> orig_to_clone := [1 \<mapsto> 20] \<rparr>) \<and>
   GetClone True (overwriting_cloner\<lparr> orig_to_clone := [1 \<mapsto> 20] \<rparr>) 1 = Inr 20 \<and>
   CommitClone True (sample_cloner\<lparr> orig_to_clone := [1 \<mapsto> 10] \<rparr>) 1 20 = Inl DCheckFailed"
  using CommitClone_second_clone [of "overwriting_cloner\<lparr> orig_to_clone := [1 \<mapsto> 10] \<rparr>" 1 10 True 20]
    CommitClone_second_clone [of "sample_cloner\<lparr> orig_to_clone := [1 \<mapsto> 10] \<rparr>" 1 10 True 20]
  by (simp add: overwriting_cloner_def sample_cloner_def new_HInstructionCloner_def
      CommitClone_def nullptr_def)

text \<open>
  In a release build the cloner without \<open>allow_overwrite\<close> accepts the second commit
  for the same original: nothing rejects it, and the entry is replaced.
\<close>

theorem CommitClone_release_counterexample:
  "\<not> allow_overwrite sample_cloner \<and>
   CommitClone False sample_cloner 1 10 =
     Inr (sample_cloner\<lparr> orig_to_clone := [1 \<mapsto> 10] \<rparr>) \<and>
   CommitClone False (sample_cloner\<lparr> orig_to_clone := [1 \<mapsto> 10] \<rparr>) 1 20 =
     Inr (sample_cloner\<lparr> orig_to_clone := [1 \<mapsto> 20] \<rparr>) \<and>
   GetClone False (sample_cloner\<lparr> orig_to_clone := [1 \<mapsto> 20] \<rparr>) 1 = Inr 20"
  by (simp add: sample_cloner_def new_HInstructionCloner_def CommitClone_def GetClone_def)

text \<open>
  Claim C10. The visit of a node that takes the unsupported path returns, and changes
  the flag and the failed-clone name only: the clone map is as before, so \<open>GetClone\<close>
  on the node answers as before, with the null pointer when the map had no entry.
\<close>

theorem unsupported_visit_keeps_clone_map:
  assumes "took_unsupported_path dbg n"
  shows "Visit dbg nc c n =
           Inr (c\<lparr> all_cloned_okay := False,
                   debug_name_failed_clone := Some (DebugName n) \<rparr>) \<and>
         orig_to_clone (c\<lparr> all_cloned_okay := False,
                           debug_name_failed_clone := Some (DebugName n) \<rparr>) = orig_to_clone c \<and>
         GetClone dbg (c\<lparr> all_cloned_okay := False,
                          debug_name_failed_clone := Some (DebugName n) \<rparr>) (addr n) =
           GetClone dbg c (addr n) \<and>
         (orig_to_clone c (addr n) = None \<longrightarrow>
            GetClone dbg (c\<lparr> all_cloned_okay := False,
                             debug_name_failed_clone := Some (DebugName n) \<rparr>) (addr n) =
              Inr nullptr)"
  using Visit_unsupported [OF assms, of nc c]
  by (simp add: UnsupportedInstruction_def GetClone_def)

theorem unsupported_visit_keeps_clone_map_witness:
  "took_unsupported_path True exit_node \<and>
   Visit True sample_new_clone sample_cloner exit_node =
     Inr (sample_cloner\<lparr> all_cloned_okay := False,
                          debug_name_failed_clone := Some ''Exit'' \<rparr>) \<and>
   GetClone True (sample_cloner\<lparr> all_cloned_okay := False,
                                  debug_name_failed_clone := Some ''Exit'' \<rparr>) 3 = Inr nullptr"
proof -
  have took: "took_unsupported_path True exit_node"
    by (simp add: took_unsupported_path_def unsupported_kinds_def exit_node_def)
  have "orig_to_clone sample_cloner (addr exit_node) = None"
    by (simp add: sample_cloner_def new_HInstructionCloner_def)
  with unsupported_visit_keeps_clone_map [OF took, of sample_new_clone sample_cloner] took
  show ?thesis
    by (simp add: exit_node_def GetClone_def)
qed

section \<open>Properties of the inline caches\<close>

declare GetInlineCache_from.simps [simp del]
declare AddInvokeInfo_loop.simps [simp del]
declare IncrementBBCount_from.simps [simp del]

lemma AddInvokeInfo_loop_unfold:
  "AddInvokeInfo_loop k cs cls i =
     (if i < k then
        (if cs ! i = cls then (cs, False)
         else if cs ! i = nullptr then (cs[i := cls], True)
         else AddInvokeInfo_loop k cs cls (i + 1))
      else (cs, False))"
  by (subst AddInvokeInfo_loop.simps) (simp add: CompareExchangeStrong_def)

lemma GetInlineCache_from_Some:
  "GetInlineCache_from info pc i = Some j \<Longrightarrow>
     i \<le> j \<and> j < length (cache info) \<and> cache_dex_pc (cache info ! j) = pc \<and>
     (\<forall>m. i \<le> m \<and> m < j \<longrightarrow> cache_dex_pc (cache info ! m) \<noteq> pc)"
proof (induction info pc i rule: GetInlineCache_from.induct)
  case (1 info dex_pc i)
  show ?case
  proof (cases "i < number_of_inline_caches info \<and> cache_dex_pc (cache info ! i) \<noteq> dex_pc")
    case True
    with "1.prems" have "GetInlineCache_from info dex_pc (i + 1) = Some j"
      by (subst (asm) GetInlineCache_from.simps) simp
    with "1.IH" True have ih: "i + 1 \<le> j \<and> j < length (cache info) \<and> cache_dex_pc (cache info ! j) = dex_pc \<and>
     (\<forall>m. i + 1 \<le> m \<and> m < j \<longrightarrow> cache_dex_pc (cache info ! m) \<noteq> dex_pc)"
      by simp
    have "\<And>m. i \<le> m \<Longrightarrow> m < j \<Longrightarrow> cache_dex_pc (cache info ! m) \<noteq> dex_pc"
    proof -
      fix m assume "i \<le> m" "m < j"
      then show "cache_dex_pc (cache info ! m) \<noteq> dex_pc"
        using ih True by (cases "m = i") auto
    qed
    with ih show ?thesis by auto
  next
    case False
    with "1.prems" show ?thesis
      by (subst (asm) GetInlineCache_from.simps) (auto simp: number_of_inline_caches_def split: if_splits)
  qed
qed

lemma GetInlineCache_from_None:
  "GetInlineCache_from info pc i = None \<Longrightarrow> i \<le> m \<Longrightarrow> m < length (cache info) \<Longrightarrow>
     cache_dex_pc (cache info ! m) \<noteq> pc"
proof (induction info pc i rule: GetInlineCache_from.induct)
  case (1 info dex_pc i)
  from "1.prems" have lt: "i < number_of_inline_caches info"
    by (simp add: number_of_inline_caches_def)
  with "1.prems"(1) have ne: "cache_dex_pc (cache info ! i) \<noteq> dex_pc"
    and rest: "GetInlineCache_from info dex_pc (i + 1) = None"
    by (subst (asm) GetInlineCache_from.simps, simp split: if_splits)+
  show ?case
  proof (cases "m = i")
    case True
    with ne show ?thesis by simp
  next
    case False
    with "1.prems" have "i + 1 \<le> m" by simp
    from "1.IH" [OF lt ne rest this "1.prems"(3)] show ?thesis .
  qed
qed

lemma GetInlineCache_from_cong:
  "map cache_dex_pc (cache info') = map cache_dex_pc (cache info) \<Longrightarrow>
   GetInlineCache_from info' pc i = GetInlineCache_from info pc i"
proof (induction info pc i rule: GetInlineCache_from.induct)
  case (1 info dex_pc i)
  from "1.prems" have len: "length (cache info') = length (cache info)"
    by (metis length_map)
  have nth: "i < length (cache info) \<Longrightarrow> cache_dex_pc (cache info' ! i) = cache_dex_pc (cache info ! i)"
    using "1.prems" len by (metis nth_map)
  show ?case
    using "1.IH" "1.prems" len nth
    by (subst GetInlineCache_from.simps, subst (2) GetInlineCache_from.simps)
       (simp add: number_of_inline_caches_def)
qed

lemma GetInlineCache_registered:
  "pc \<in> set (map cache_dex_pc (cache info)) \<Longrightarrow> \<exists>j. GetInlineCache info pc = Some j"
proof (rule ccontr)
  assume reg: "pc \<in> set (map cache_dex_pc (cache info))" and "\<nexists>j. GetInlineCache info pc = Some j"
  then have none: "GetInlineCache_from info pc 0 = None"
    by (simp add: GetInlineCache_def)
  from reg obtain m where "m < length (cache info)" "cache_dex_pc (cache info ! m) = pc"
    by (auto simp: in_set_conv_nth)
  with GetInlineCache_from_None [OF none, of m] show False by simp
qed


lemma AddInvokeInfo_loop_below:
  "j < i \<Longrightarrow> fst (AddInvokeInfo_loop k cs cls i) ! j = cs ! j"
proof (induction k cs cls i rule: AddInvokeInfo_loop.induct)
  case (1 k cs cls i)
  then show ?case
    by (subst AddInvokeInfo_loop_unfold) (simp add: CompareExchangeStrong_def)
qed

lemma AddInvokeInfo_loop_length:
  "length (fst (AddInvokeInfo_loop k cs cls i)) = length cs"
proof (induction k cs cls i rule: AddInvokeInfo_loop.induct)
  case (1 k cs cls i)
  then show ?case
    by (subst AddInvokeInfo_loop_unfold) (simp add: CompareExchangeStrong_def)
qed

lemma AddInvokeInfo_loop_twice:
  "fst (AddInvokeInfo_loop k (fst (AddInvokeInfo_loop k cs cls i)) cls i) =
   fst (AddInvokeInfo_loop k cs cls i)"
proof (induction k cs cls i rule: AddInvokeInfo_loop.induct)
  case (1 k cs cls i)
  show ?case
  proof (cases "i < k")
    case False
    then show ?thesis
      by (simp add: AddInvokeInfo_loop_unfold [of k _ cls i])
  next
    case lt: True
    show ?thesis
    proof (cases "cs ! i = cls")
      case True
      with lt have "AddInvokeInfo_loop k cs cls i = (cs, False)"
        by (simp add: AddInvokeInfo_loop_unfold [of k cs cls i])
      then show ?thesis by simp
    next
      case ne: False
      show ?thesis
      proof (cases "cs ! i = nullptr")
        case True
        with lt ne have r: "AddInvokeInfo_loop k cs cls i = (cs[i := cls], True)"
          by (simp add: AddInvokeInfo_loop_unfold [of k cs cls i])
        show ?thesis
        proof (cases "i < length cs")
          case True
          with lt have "AddInvokeInfo_loop k (cs[i := cls]) cls i = (cs[i := cls], False)"
            by (simp add: AddInvokeInfo_loop_unfold [of k "cs[i := cls]" cls i])
          with r show ?thesis by simp
        next
          case False
          then have "cs[i := cls] = cs" by (simp add: list_update_beyond)
          with r show ?thesis by simp
        qed
      next
        case nn: False
        with lt ne have r: "AddInvokeInfo_loop k cs cls i = AddInvokeInfo_loop k cs cls (i + 1)"
          by (simp add: AddInvokeInfo_loop_unfold [of k cs cls i])
        let ?cs1 = "fst (AddInvokeInfo_loop k cs cls (i + 1))"
        have same: "?cs1 ! i = cs ! i"
          by (rule AddInvokeInfo_loop_below) simp
        with lt ne nn have "AddInvokeInfo_loop k ?cs1 cls i = AddInvokeInfo_loop k ?cs1 cls (i + 1)"
          by (subst AddInvokeInfo_loop_unfold) simp
        moreover have "fst (AddInvokeInfo_loop k ?cs1 cls (i + 1)) = ?cs1"
          using "1.IH" lt ne nn by (simp add: CompareExchangeStrong_def)
        ultimately show ?thesis using r by simp
      qed
    qed
  qed
qed

lemma AddInvokeInfo_loop_published:
  "k \<le> length cs \<Longrightarrow>
   snd (AddInvokeInfo_loop k cs cls i) \<longleftrightarrow> fst (AddInvokeInfo_loop k cs cls i) \<noteq> cs"
proof (induction k cs cls i rule: AddInvokeInfo_loop.induct)
  case (1 k cs cls i)
  show ?case
  proof (cases "i < k \<and> cs ! i \<noteq> cls \<and> cs ! i = nullptr")
    case True
    then have r: "AddInvokeInfo_loop k cs cls i = (cs[i := cls], True)"
      by (simp add: AddInvokeInfo_loop_unfold [of k cs cls i])
    from True "1.prems" have "cs[i := cls] ! i \<noteq> cs ! i" by simp
    then have "cs[i := cls] \<noteq> cs" by metis
    with r show ?thesis by simp
  next
    case False
    with "1.IH" "1.prems" show ?thesis
      by (subst (1 2) AddInvokeInfo_loop_unfold) (auto simp: CompareExchangeStrong_def)
  qed
qed

lemma AddInvokeInfo_loop_publish_slot:
  "snd (AddInvokeInfo_loop k cs cls i) \<Longrightarrow>
   \<exists>m. i \<le> m \<and> m < k \<and> cs ! m = nullptr \<and> cls \<noteq> nullptr \<and>
       fst (AddInvokeInfo_loop k cs cls i) = cs[m := cls]"
proof (induction k cs cls i rule: AddInvokeInfo_loop.induct)
  case (1 k cs cls i)
  show ?case
  proof (cases "i < k \<and> cs ! i \<noteq> cls \<and> cs ! i \<noteq> nullptr")
    case True
    with "1.prems" have s: "snd (AddInvokeInfo_loop k cs cls (i + 1))"
      and r: "AddInvokeInfo_loop k cs cls i = AddInvokeInfo_loop k cs cls (i + 1)"
      by (simp_all add: AddInvokeInfo_loop_unfold [of k cs cls i])
    from "1.IH" True s obtain m where "i + 1 \<le> m" "m < k" "cs ! m = nullptr" "cls \<noteq> nullptr"
      "fst (AddInvokeInfo_loop k cs cls (i + 1)) = cs[m := cls]"
      by (auto simp: CompareExchangeStrong_def)
    with r show ?thesis by (intro exI [of _ m]) simp
  next
    case False
    with "1.prems" show ?thesis
      by (subst (asm) AddInvokeInfo_loop_unfold, subst AddInvokeInfo_loop_unfold)
         (auto split: if_splits)
  qed
qed

lemma AddInvokeInfo_loop_fill:
  "nullptr \<notin> set xs \<Longrightarrow> t \<notin> set xs \<Longrightarrow> t \<noteq> nullptr \<Longrightarrow> i \<le> length xs \<Longrightarrow> length xs < k \<Longrightarrow>
   AddInvokeInfo_loop k (xs @ replicate (k - length xs) nullptr) t i =
     (xs @ t # replicate (k - length xs - 1) nullptr, True)"
proof (induction "length xs - i" arbitrary: i)
  case 0
  then have i: "i = length xs" by simp
  from 0 have "replicate (k - length xs) nullptr = nullptr # replicate (k - length xs - 1) nullptr"
    by (cases "k - length xs") simp_all
  then show ?case using 0 i
    by (subst AddInvokeInfo_loop_unfold) simp
next
  case (Suc n)
  then have lt: "i < length xs" by simp
  then have "xs ! i \<in> set xs" by simp
  with Suc.prems have "xs ! i \<noteq> t" "xs ! i \<noteq> nullptr" by auto
  moreover have "n = length xs - (i + 1)" using Suc.hyps(2) by simp
  ultimately show ?case using Suc.hyps(1) [of "i + 1"] Suc.prems lt
    by (subst AddInvokeInfo_loop_unfold) (simp add: nth_append)
qed

lemma AddInvokeInfo_loop_full:
  "nullptr \<notin> set cs \<Longrightarrow> t \<notin> set cs \<Longrightarrow> k \<le> length cs \<Longrightarrow>
   AddInvokeInfo_loop k cs t i = (cs, False)"
proof (induction "k - i" arbitrary: i)
  case 0
  then show ?case by (subst AddInvokeInfo_loop_unfold) simp
next
  case (Suc n)
  then have lt: "i < k" by simp
  with Suc.prems have "cs ! i \<in> set cs" by simp
  with Suc.prems have "cs ! i \<noteq> t" "cs ! i \<noteq> nullptr" by auto
  moreover have "n = k - (i + 1)" using Suc.hyps(2) by simp
  ultimately show ?case using Suc.hyps(1) [of "i + 1"] Suc.prems lt
    by (subst AddInvokeInfo_loop_unfold) simp
qed

lemma AddInvokeInfo_registered:
  "GetInlineCache info pc = Some j \<Longrightarrow>
   AddInvokeInfo k info pc cls =
     Inr (info\<lparr> cache := (cache info)[j := (cache info ! j)
                  \<lparr> classes := fst (AddInvokeInfo_loop k (classes (cache info ! j)) cls 0) \<rparr>] \<rparr>,
          if snd (AddInvokeInfo_loop k (classes (cache info ! j)) cls 0) \<and> holding_class info \<noteq> nullptr
          then [holding_class info] else [])"
  by (simp add: AddInvokeInfo_def case_prod_unfold Let_def)

lemma cache_update_offsets:
  "map cache_dex_pc (cs[j := (cs ! j)\<lparr> classes := x \<rparr>]) = map cache_dex_pc cs"
  by (cases "j < length cs") (simp_all add: map_update list_update_beyond list_update_same_conv)

lemma GetInlineCache_after_update:
  "GetInlineCache (info\<lparr> cache := (cache info)[j := (cache info ! j)\<lparr> classes := x \<rparr>] \<rparr>) pc =
   GetInlineCache info pc"
  unfolding GetInlineCache_def
  by (rule GetInlineCache_from_cong) (simp add: cache_update_offsets)

lemma GetInlineCache_bound:
  "GetInlineCache info pc = Some j \<Longrightarrow> j < length (cache info)"
  by (auto simp: GetInlineCache_def dest: GetInlineCache_from_Some)

lemma AddInvokeInfo_all_fill:
  assumes "GetInlineCache info pc = Some j"
    and "classes (cache info ! j) = filled @ replicate (k - length filled) nullptr"
    and "distinct (filled @ ts)" and "nullptr \<notin> set (filled @ ts)" and "length (filled @ ts) \<le> k"
  shows "\<exists>info' ws. AddInvokeInfo_all k info (map (Pair pc) ts) = Inr (info', ws) \<and>
           GetInlineCache info' pc = Some j \<and>
           classes (cache info' ! j) = (filled @ ts) @ replicate (k - length (filled @ ts)) nullptr \<and>
           map cache_dex_pc (cache info') = map cache_dex_pc (cache info) \<and>
           (\<forall>m. m \<noteq> j \<longrightarrow> cache info' ! m = cache info ! m)"
  using assms
proof (induction ts arbitrary: info filled)
  case Nil
  then show ?case by simp
next
  case (Cons t ts)
  from Cons.prems(1) have bound: "j < length (cache info)"
    by (rule GetInlineCache_bound)
  have loop: "AddInvokeInfo_loop k (classes (cache info ! j)) t 0 =
      (filled @ t # replicate (k - length filled - 1) nullptr, True)"
    unfolding Cons.prems(2) using Cons.prems(3,4,5)
    by (intro AddInvokeInfo_loop_fill) auto
  define info1 where "info1 = info\<lparr> cache := (cache info)[j := (cache info ! j)
       \<lparr> classes := filled @ t # replicate (k - length filled - 1) nullptr \<rparr>] \<rparr>"
  have step: "AddInvokeInfo k info pc t =
      Inr (info1, if holding_class info \<noteq> nullptr then [holding_class info] else [])"
    using AddInvokeInfo_registered [OF Cons.prems(1), of k t] loop by (simp add: info1_def)
  have j1: "GetInlineCache info1 pc = Some j"
    unfolding info1_def by (simp add: GetInlineCache_after_update Cons.prems(1))
  have slots1: "classes (cache info1 ! j) =
      (filled @ [t]) @ replicate (k - length (filled @ [t])) nullptr"
    using bound by (simp add: info1_def)
  have offs1: "map cache_dex_pc (cache info1) = map cache_dex_pc (cache info)"
    by (simp add: info1_def cache_update_offsets)
  have others1: "\<And>m. m \<noteq> j \<Longrightarrow> cache info1 ! m = cache info ! m"
    by (simp add: info1_def)
  from Cons.prems(3,4,5) have "distinct ((filled @ [t]) @ ts)"
    "nullptr \<notin> set ((filled @ [t]) @ ts)" "length ((filled @ [t]) @ ts) \<le> k"
    by auto
  from Cons.IH [OF j1 slots1 this] obtain info' ws where
    r: "AddInvokeInfo_all k info1 (map (Pair pc) ts) = Inr (info', ws)"
    and j': "GetInlineCache info' pc = Some j"
    and slots': "classes (cache info' ! j) =
       ((filled @ [t]) @ ts) @ replicate (k - length ((filled @ [t]) @ ts)) nullptr"
    and offs': "map cache_dex_pc (cache info') = map cache_dex_pc (cache info1)"
    and others': "\<forall>m. m \<noteq> j \<longrightarrow> cache info' ! m = cache info1 ! m"
    by blast
  from step r have "AddInvokeInfo_all k info (map (Pair pc) (t # ts)) =
      Inr (info', (if holding_class info \<noteq> nullptr then [holding_class info] else []) @ ws)"
    by simp
  with j' slots' offs' offs1 others' others1 show ?case
    by (intro exI conjI) (assumption, simp_all)
qed

lemma AddInvokeInfo_full_cache:
  assumes "GetInlineCache info pc = Some j"
    and "nullptr \<notin> set (classes (cache info ! j))" and "t \<notin> set (classes (cache info ! j))"
    and "k \<le> length (classes (cache info ! j))"
  shows "AddInvokeInfo k info pc t = Inr (info, [])"
proof -
  from assms(1) have bound: "j < length (cache info)"
    by (rule GetInlineCache_bound)
  have "AddInvokeInfo_loop k (classes (cache info ! j)) t 0 = (classes (cache info ! j), False)"
    using assms(2,3,4) by (rule AddInvokeInfo_loop_full)
  moreover have "(cache info ! j)\<lparr> classes := classes (cache info ! j) \<rparr> = cache info ! j"
    by simp
  ultimately show ?thesis
    using AddInvokeInfo_registered [OF assms(1), of k t] bound by simp
qed

lemma GetInlineCache_sample: "GetInlineCache sample_info 4 = Some 0"
  by (simp add: GetInlineCache_def GetInlineCache_from.simps number_of_inline_caches_def
      sample_info_def)

lemma GetInlineCache_first:
  assumes "j < length (cache info)" and "cache_dex_pc (cache info ! j) = pc"
    and "\<forall>m < j. cache_dex_pc (cache info ! m) \<noteq> pc"
  shows "GetInlineCache info pc = Some j"
proof -
  from assms(1,2) have "pc \<in> set (map cache_dex_pc (cache info))"
    using nth_mem [of j "cache info"] by auto
  from GetInlineCache_registered [OF this] obtain j' where
    j': "GetInlineCache info pc = Some j'"
    by blast
  then have f: "GetInlineCache_from info pc 0 = Some j'"
    by (simp add: GetInlineCache_def)
  from GetInlineCache_from_Some [OF f] have
    a: "cache_dex_pc (cache info ! j') = pc"
    and b: "\<forall>m. 0 \<le> m \<and> m < j' \<longrightarrow> cache_dex_pc (cache info ! m) \<noteq> pc"
    by simp_all
  have "\<not> j < j'" using b assms(2) by auto
  moreover have "\<not> j' < j" using a assms(3) by auto
  ultimately have "j' = j" by simp
  with j' show ?thesis by simp
qed

text \<open>
  Claim C3. Let cache \<open>j\<close> be the cache of the site: the first cache of the record
  whose offset is \<open>pc\<close>. From that cache with its \<open>k\<close> slots all empty, adding
  \<open>N \<le> k\<close> distinct types (class references, so none of them null) at \<open>pc\<close> one
  after the other returns every time and leaves that cache, still at offset \<open>pc\<close>,
  holding them in order, its other slots empty, and every other cache as it was. When
  \<open>N = k\<close> every slot is occupied, and a call with any further type returns the
  record unchanged, with no abort and no write barrier.
\<close>

theorem AddInvokeInfo_fills_then_drops:
  assumes "j < length (cache info)"
    and "cache_dex_pc (cache info ! j) = pc"
    and "\<forall>m < j. cache_dex_pc (cache info ! m) \<noteq> pc"
    and "classes (cache info ! j) = replicate k nullptr"
    and "distinct ts" and "nullptr \<notin> set ts" and "length ts \<le> k"
  shows "\<exists>info' ws. AddInvokeInfo_all k info (map (Pair pc) ts) = Inr (info', ws) \<and>
           length (cache info') = length (cache info) \<and>
           cache_dex_pc (cache info' ! j) = pc \<and>
           classes (cache info' ! j) = ts @ replicate (k - length ts) nullptr \<and>
           (\<forall>m. m \<noteq> j \<longrightarrow> cache info' ! m = cache info ! m) \<and>
           (\<forall>t. length ts = k \<and> t \<notin> set ts \<longrightarrow> AddInvokeInfo k info' pc t = Inr (info', []))"
proof -
  have site: "GetInlineCache info pc = Some j"
    using assms(1,2,3) by (rule GetInlineCache_first)
  from AddInvokeInfo_all_fill [of info pc j "[]" k ts] site assms(4,5,6,7) obtain info' ws where
    r: "AddInvokeInfo_all k info (map (Pair pc) ts) = Inr (info', ws)"
    and j': "GetInlineCache info' pc = Some j"
    and slots': "classes (cache info' ! j) = ts @ replicate (k - length ts) nullptr"
    and offs': "map cache_dex_pc (cache info') = map cache_dex_pc (cache info)"
    and others': "\<forall>m. m \<noteq> j \<longrightarrow> cache info' ! m = cache info ! m"
    by auto
  from offs' have len': "length (cache info') = length (cache info)"
    by (metis length_map)
  have "cache_dex_pc (cache info' ! j) = map cache_dex_pc (cache info') ! j"
    using assms(1) len' by simp
  also have "\<dots> = map cache_dex_pc (cache info) ! j"
    by (simp only: offs')
  also have "\<dots> = pc"
    using assms(1,2) by simp
  finally have at': "cache_dex_pc (cache info' ! j) = pc" .
  have "AddInvokeInfo k info' pc t = Inr (info', [])" if full: "length ts = k" and new: "t \<notin> set ts" for t
  proof -
    from slots' full have s: "classes (cache info' ! j) = ts" by simp
    show ?thesis
      by (rule AddInvokeInfo_full_cache [OF j']) (simp_all add: s assms(6) new full)
  qed
  with r len' at' slots' others' show ?thesis by blast
qed

lemma two_site_run:
  "AddInvokeInfo_all 2 two_site_info [(4, 11), (4, 12)] =
     Inr (two_site_info\<lparr> cache := [\<lparr> cache_dex_pc = 0, classes = [nullptr, nullptr] \<rparr>,
                                    \<lparr> cache_dex_pc = 4, classes = [11, 12] \<rparr>] \<rparr>, [7, 7])"
  by (simp add: AddInvokeInfo_def GetInlineCache_def GetInlineCache_from.simps
      number_of_inline_caches_def AddInvokeInfo_loop_unfold two_site_info_def nullptr_def)

theorem AddInvokeInfo_fills_then_drops_witness:
  "1 < length (cache two_site_info) \<and>
   cache_dex_pc (cache two_site_info ! 1) = 4 \<and>
   cache_dex_pc (cache two_site_info ! 0) \<noteq> 4 \<and>
   classes (cache two_site_info ! 1) = replicate 2 nullptr \<and>
   distinct [11, 12 :: ptr] \<and> nullptr \<notin> set [11, 12] \<and> length [11, 12 :: ptr] \<le> 2 \<and>
   AddInvokeInfo_all 2 two_site_info [(4, 11), (4, 12)] =
     Inr (two_site_info\<lparr> cache := [\<lparr> cache_dex_pc = 0, classes = [nullptr, nullptr] \<rparr>,
                                    \<lparr> cache_dex_pc = 4, classes = [11, 12] \<rparr>] \<rparr>, [7, 7]) \<and>
   AddInvokeInfo 2
       (two_site_info\<lparr> cache := [\<lparr> cache_dex_pc = 0, classes = [nullptr, nullptr] \<rparr>,
                                  \<lparr> cache_dex_pc = 4, classes = [11, 12] \<rparr>] \<rparr>) 4 13 =
     Inr (two_site_info\<lparr> cache := [\<lparr> cache_dex_pc = 0, classes = [nullptr, nullptr] \<rparr>,
                                    \<lparr> cache_dex_pc = 4, classes = [11, 12] \<rparr>] \<rparr>, [])"
proof -
  have site: "1 < length (cache two_site_info)" "cache_dex_pc (cache two_site_info ! 1) = 4"
    by (simp_all add: two_site_info_def)
  have first: "\<forall>m < 1. cache_dex_pc (cache two_site_info ! m) \<noteq> 4"
    by (simp add: two_site_info_def)
  have slots: "classes (cache two_site_info ! 1) = replicate 2 nullptr"
    by (simp add: two_site_info_def numeral_2_eq_2)
  have ts: "distinct [11, 12 :: ptr]" "nullptr \<notin> set [11, 12]" "length [11, 12 :: ptr] \<le> 2"
    by (simp_all add: nullptr_def)
  from AddInvokeInfo_fills_then_drops [OF site first slots ts]
  obtain info' ws where
    r: "AddInvokeInfo_all 2 two_site_info (map (Pair 4) [11, 12]) = Inr (info', ws)"
    and d: "\<forall>t. length [11, 12 :: ptr] = 2 \<and> t \<notin> set [11, 12] \<longrightarrow>
              AddInvokeInfo 2 info' 4 t = Inr (info', [])"
    by blast
  from r two_site_run have i: "info' =
      two_site_info\<lparr> cache := [\<lparr> cache_dex_pc = 0, classes = [nullptr, nullptr] \<rparr>,
                                \<lparr> cache_dex_pc = 4, classes = [11, 12] \<rparr>] \<rparr>"
    by simp
  from d have "AddInvokeInfo 2 info' 4 13 = Inr (info', [])"
    by simp
  with i site first slots ts two_site_run show ?thesis
    by simp
qed

text \<open>
  Claim C4. On a registered site, \<open>AddInvokeInfo\<close> returns, and a second call with
  the same type on the record it returned gives that very record back.
\<close>

theorem AddInvokeInfo_idempotent:
  assumes "pc \<in> set (map cache_dex_pc (cache info))"
  shows "\<exists>info1 ws1 ws2. AddInvokeInfo k info pc cls = Inr (info1, ws1) \<and>
           AddInvokeInfo k info1 pc cls = Inr (info1, ws2)"
proof -
  from GetInlineCache_registered [OF assms] obtain j where j: "GetInlineCache info pc = Some j"
    by blast
  then have bound: "j < length (cache info)"
    by (rule GetInlineCache_bound)
  define cs1 where "cs1 = fst (AddInvokeInfo_loop k (classes (cache info ! j)) cls 0)"
  define info1 where "info1 = info\<lparr> cache := (cache info)[j := (cache info ! j)\<lparr> classes := cs1 \<rparr>] \<rparr>"
  have j1: "GetInlineCache info1 pc = Some j"
    unfolding info1_def by (simp add: GetInlineCache_after_update j)
  have slots: "classes (cache info1 ! j) = cs1"
    using bound by (simp add: info1_def)
  have again: "fst (AddInvokeInfo_loop k cs1 cls 0) = cs1"
    unfolding cs1_def by (rule AddInvokeInfo_loop_twice)
  have same: "info1\<lparr> cache := (cache info1)[j := (cache info1 ! j)\<lparr> classes := cs1 \<rparr>] \<rparr> = info1"
    using bound by (simp add: info1_def)
  have first: "AddInvokeInfo k info pc cls =
      Inr (info1, if snd (AddInvokeInfo_loop k (classes (cache info ! j)) cls 0) \<and> holding_class info \<noteq> nullptr
          then [holding_class info] else [])"
    using AddInvokeInfo_registered [OF j, of k cls] by (simp add: info1_def cs1_def)
  have second: "AddInvokeInfo k info1 pc cls =
      Inr (info1, if snd (AddInvokeInfo_loop k cs1 cls 0) \<and> holding_class info1 \<noteq> nullptr
          then [holding_class info1] else [])"
    using AddInvokeInfo_registered [OF j1, of k cls] slots again same by simp
  from first second show ?thesis by blast
qed

theorem AddInvokeInfo_idempotent_witness:
  "4 \<in> set (map cache_dex_pc (cache sample_info)) \<and>
   (\<exists>info1 ws1 ws2. AddInvokeInfo 2 sample_info 4 11 = Inr (info1, ws1) \<and>
       AddInvokeInfo 2 info1 4 11 = Inr (info1, ws2))"
proof -
  have reg: "4 \<in> set (map cache_dex_pc (cache sample_info))"
    by (simp add: sample_info_def)
  from AddInvokeInfo_idempotent [OF reg, of 2 11] reg show ?thesis
    by blast
qed

lemma AddInvokeInfo_sample:
  "AddInvokeInfo 2 sample_info 4 11 =
     Inr (sample_info\<lparr> cache := [\<lparr> cache_dex_pc = 4, classes = [11, nullptr] \<rparr>] \<rparr>, [7])"
  by (simp add: AddInvokeInfo_registered [OF GetInlineCache_sample] AddInvokeInfo_loop_unfold)
     (simp add: sample_info_def nullptr_def)

text \<open>
  Claim C8, as the code has it. On a registered site whose cache has its \<open>k\<close> slots,
  \<open>AddInvokeInfo\<close> returns; it has called the write barrier once, on the holding
  class, when it published the type into an empty slot and the holding class is not the
  null reference, and not at all otherwise (type already there, cache full, or holding
  class null: the call is under \<open>if (!holding_class_.IsNull())\<close>).
\<close>

theorem AddInvokeInfo_write_barrier:
  assumes "GetInlineCache info pc = Some j" and "length (classes (cache info ! j)) = k"
  shows "\<exists>info' ws. AddInvokeInfo k info pc cls = Inr (info', ws) \<and>
           ws = (if cache info' \<noteq> cache info \<and> holding_class info \<noteq> nullptr
                 then [holding_class info] else []) \<and>
           (cache info' \<noteq> cache info \<longrightarrow>
              (\<exists>m < k. classes (cache info ! j) ! m = nullptr \<and> cls \<noteq> nullptr \<and>
                 cache info' = (cache info)[j := (cache info ! j)
                    \<lparr> classes := (classes (cache info ! j))[m := cls] \<rparr>]))"
proof -
  from assms(1) have bound: "j < length (cache info)"
    by (rule GetInlineCache_bound)
  let ?cs = "classes (cache info ! j)"
  let ?L = "AddInvokeInfo_loop k ?cs cls 0"
  let ?info' = "info\<lparr> cache := (cache info)[j := (cache info ! j)\<lparr> classes := fst ?L \<rparr>] \<rparr>"
  have pub: "snd ?L \<longleftrightarrow> fst ?L \<noteq> ?cs"
    using assms(2) by (intro AddInvokeInfo_loop_published) simp
  have changed: "cache ?info' \<noteq> cache info \<longleftrightarrow> fst ?L \<noteq> ?cs"
  proof
    assume "cache ?info' \<noteq> cache info"
    then show "fst ?L \<noteq> ?cs" by (auto simp: list_update_same_conv)
  next
    assume ne: "fst ?L \<noteq> ?cs"
    have "classes (cache ?info' ! j) = fst ?L" using bound by simp
    with ne show "cache ?info' \<noteq> cache info" by metis
  qed
  have slot: "\<exists>m < k. ?cs ! m = nullptr \<and> cls \<noteq> nullptr \<and>
      cache ?info' = (cache info)[j := (cache info ! j)\<lparr> classes := ?cs[m := cls] \<rparr>]"
    if "cache ?info' \<noteq> cache info"
  proof -
    from that changed pub have "snd ?L" by simp
    from AddInvokeInfo_loop_publish_slot [OF this] obtain m where
      "m < k" "?cs ! m = nullptr" "cls \<noteq> nullptr" "fst ?L = ?cs[m := cls]"
      by blast
    then show ?thesis by (intro exI [of _ m]) simp
  qed
  have "AddInvokeInfo k info pc cls =
      Inr (?info', if snd ?L \<and> holding_class info \<noteq> nullptr then [holding_class info] else [])"
    by (rule AddInvokeInfo_registered [OF assms(1)])
  with pub changed slot show ?thesis
    by (intro exI [of _ ?info'] exI [of _ "if snd ?L \<and> holding_class info \<noteq> nullptr then [holding_class info] else []"])
       (simp del: ProfilingInfo.simps)
qed

theorem AddInvokeInfo_write_barrier_witness:
  "GetInlineCache sample_info 4 = Some 0 \<and>
   length (classes (cache sample_info ! 0)) = 2 \<and>
   AddInvokeInfo 2 sample_info 4 11 =
     Inr (sample_info\<lparr> cache := [\<lparr> cache_dex_pc = 4, classes = [11, nullptr] \<rparr>] \<rparr>, [7]) \<and>
   [7] = (if cache (sample_info\<lparr> cache := [\<lparr> cache_dex_pc = 4, classes = [11, nullptr] \<rparr>] \<rparr>)
             \<noteq> cache sample_info \<and> holding_class sample_info \<noteq> nullptr
          then [holding_class sample_info] else [])"
proof -
  have len: "length (classes (cache sample_info ! 0)) = 2"
    by (simp add: sample_info_def)
  from AddInvokeInfo_write_barrier [OF GetInlineCache_sample len, of 11]
    GetInlineCache_sample len AddInvokeInfo_sample
  show ?thesis
    by auto
qed

lemma sorted_four: "sorted_list_of_set {0, 6, 7, 8 :: u32} = [0, 6, 7, 8]"
proof -
  have "sorted_list_of_set (set [0, 6, 7, 8 :: u32]) = [0, 6, 7, 8]"
    by (rule sorted_list_of_set.idem_if_sorted_distinct) simp_all
  then show ?thesis by simp
qed

lemma switch_Create_loop:
  "Create_loop sample_At (insns switch_code) 0 0 [] {0} = Some (Inr ([0], {0, 6, 8}))"
  by (simp add: Create_loop.simps Create_switch_def sample_At_def switch_code_def insert_commute
      read_unit_def read_int32_def insert_targets.simps)

lemma switch_catch_clauses: "add_catch_clauses (tries switch_code) {0, 6, 8} = {0, 6, 7, 8}"
  by (auto simp: add_catch_clauses_def switch_code_def)

lemma switch_Create: "Create True sample_At sample_method = Some (Inr ([0], [0, 6, 7, 8]))"
  using switch_Create_loop switch_catch_clauses
  by (simp add: Create_def sample_method_def sorted_four)

lemma classless_Create: "Create False sample_At classless_method = Some (Inr ([0], [0, 6, 7, 8]))"
  using switch_Create_loop switch_catch_clauses
  by (simp add: Create_def classless_method_def sorted_four)

text \<open>
  The release-build constructor accepts a method whose class reference is null (its
  assertion is a \<open>DCHECK\<close>). On the record it makes of the vectors of \<open>Create\<close>,
  a call publishes class 11 into the empty first slot and calls no write barrier.
\<close>

theorem AddInvokeInfo_write_barrier_counterexample:
  "Create False sample_At classless_method = Some (Inr ([0], [0, 6, 7, 8])) \<and>
   new_ProfilingInfo False 2 classless_method [0] [0, 6, 7, 8] = Inr classless_info \<and>
   holding_class classless_info = nullptr \<and>
   classes (cache classless_info ! 0) ! 0 = nullptr \<and>
   AddInvokeInfo 2 classless_info 0 11 =
     Inr (classless_info\<lparr> cache := [\<lparr> cache_dex_pc = 0, classes = [11, nullptr] \<rparr>] \<rparr>, [])"
proof -
  have c: "new_ProfilingInfo False 2 classless_method [0] [0, 6, 7, 8] = Inr classless_info"
    by (simp add: new_ProfilingInfo_def classless_info_def classless_method_def Let_def
        numeral_2_eq_2)
  have g: "GetInlineCache classless_info 0 = Some 0"
    by (simp add: GetInlineCache_def GetInlineCache_from.simps number_of_inline_caches_def
        classless_info_def)
  have a: "AddInvokeInfo 2 classless_info 0 11 =
     Inr (classless_info\<lparr> cache := [\<lparr> cache_dex_pc = 0, classes = [11, nullptr] \<rparr>] \<rparr>, [])"
    by (simp add: AddInvokeInfo_registered [OF g] AddInvokeInfo_loop_unfold)
       (simp add: classless_info_def nullptr_def)
  have s: "classes (cache classless_info ! 0) ! 0 = nullptr"
    "holding_class classless_info = nullptr"
    by (simp_all add: classless_info_def)
  from classless_Create c s a show ?thesis by simp
qed

section \<open>Properties of the block counters\<close>

lemma u32_saturating_step:
  fixes c :: u32
  assumes "c \<noteq> 0xFFFFFFFF"
  shows "unat (c + 1) = unat c + 1"
proof -
  have "unat c < 2 ^ 32" using unsigned_less [of c] by simp
  moreover have "unat c \<noteq> 2 ^ 32 - 1"
  proof
    assume "unat c = 2 ^ 32 - 1"
    then have "unat c = unat (0xFFFFFFFF :: u32)" by simp
    then have "c = 0xFFFFFFFF" by (simp only: word_unat_eq_iff)
    with assms show False by simp
  qed
  ultimately have "unat c + 1 < 2 ^ 32" by simp
  then show ?thesis by (simp add: unat_word_ariths)
qed

lemma IncrementBBCount_from_found:
  "i \<le> m \<Longrightarrow> m < length (bb_counts info) \<Longrightarrow> bb_dex_pc (bb_counts info ! m) = pc \<Longrightarrow>
   \<forall>n. i \<le> n \<and> n < m \<longrightarrow> bb_dex_pc (bb_counts info ! n) \<noteq> pc \<Longrightarrow>
   IncrementBBCount_from dbg info pc i =
     Inr (info\<lparr> bb_counts := (bb_counts info)[m := (bb_counts info ! m)
            \<lparr> count := (if count (bb_counts info ! m) = 0xFFFFFFFF then 0xFFFFFFFF
                         else count (bb_counts info ! m) + 1) \<rparr>] \<rparr>)"
proof (induction "m - i" arbitrary: i)
  case 0
  then have i: "i = m" by simp
  show ?case
  proof (cases "count (bb_counts info ! m) = 0xFFFFFFFF")
    case True
    then have "(bb_counts info ! m)\<lparr> count := 0xFFFFFFFF \<rparr> = bb_counts info ! m"
      by (cases "bb_counts info ! m") simp
    then have "info\<lparr> bb_counts := (bb_counts info)[m := (bb_counts info ! m)\<lparr> count := 0xFFFFFFFF \<rparr>] \<rparr> = info"
      by simp
    with True 0 i show ?thesis
      by (subst IncrementBBCount_from.simps) (simp add: number_of_bb_counts_def)
  next
    case False
    with 0 i show ?thesis
      by (subst IncrementBBCount_from.simps) (simp add: number_of_bb_counts_def)
  qed
next
  case (Suc d)
  then have lt: "i < m" by simp
  with Suc.prems have ne: "bb_dex_pc (bb_counts info ! i) \<noteq> pc" by simp
  have "d = m - (i + 1)" using Suc.hyps(2) by simp
  moreover have "i + 1 \<le> m" using lt by simp
  moreover have "\<forall>n. i + 1 \<le> n \<and> n < m \<longrightarrow> bb_dex_pc (bb_counts info ! n) \<noteq> pc"
    using Suc.prems(4) by simp
  ultimately have "IncrementBBCount_from dbg info pc (i + 1) =
     Inr (info\<lparr> bb_counts := (bb_counts info)[m := (bb_counts info ! m)
            \<lparr> count := (if count (bb_counts info ! m) = 0xFFFFFFFF then 0xFFFFFFFF
                         else count (bb_counts info ! m) + 1) \<rparr>] \<rparr>)"
    using Suc.hyps(1) [of "i + 1"] Suc.prems(2,3) by blast
  then show ?case using lt ne Suc.prems(2)
    by (subst IncrementBBCount_from.simps) (simp add: number_of_bb_counts_def)
qed

lemma IncrementBBCount_from_missing:
  "\<forall>n. i \<le> n \<and> n < length (bb_counts info) \<longrightarrow> bb_dex_pc (bb_counts info ! n) \<noteq> pc \<Longrightarrow>
   IncrementBBCount_from dbg info pc i = (if dbg then Inl DCheckFailed else Inr info)"
proof (induction "length (bb_counts info) - i" arbitrary: i)
  case 0
  then show ?case
    by (subst IncrementBBCount_from.simps) (simp add: number_of_bb_counts_def)
next
  case (Suc d)
  then have lt: "i < length (bb_counts info)" by simp
  with Suc.prems have ne: "bb_dex_pc (bb_counts info ! i) \<noteq> pc" by simp
  have "d = length (bb_counts info) - (i + 1)" using Suc.hyps(2) by simp
  moreover have "\<forall>n. i + 1 \<le> n \<and> n < length (bb_counts info) \<longrightarrow> bb_dex_pc (bb_counts info ! n) \<noteq> pc"
    using Suc.prems by simp
  ultimately have "IncrementBBCount_from dbg info pc (i + 1) = (if dbg then Inl DCheckFailed else Inr info)"
    using Suc.hyps(1) [of "i + 1"] by blast
  then show ?case using lt ne
    by (subst IncrementBBCount_from.simps) (simp add: number_of_bb_counts_def)
qed

lemma first_match:
  assumes "pc \<in> set (map f xs)"
  shows "\<exists>m. m < length xs \<and> f (xs ! m) = pc \<and> (\<forall>n. n < m \<longrightarrow> f (xs ! n) \<noteq> pc)"
proof -
  from assms obtain m0 where m0: "m0 < length xs \<and> f (xs ! m0) = pc"
    by (auto simp: in_set_conv_nth)
  define m where "m = (LEAST m. m < length xs \<and> f (xs ! m) = pc)"
  have "m < length xs \<and> f (xs ! m) = pc"
    unfolding m_def using m0 by (rule LeastI)
  moreover have "\<forall>n. n < m \<longrightarrow> \<not> (n < length xs \<and> f (xs ! n) = pc)"
    unfolding m_def using not_less_Least by blast
  ultimately show ?thesis by (intro exI [of _ m]) auto
qed

lemma IncrementBBCount_registered:
  assumes "pc \<in> set (map bb_dex_pc (bb_counts info))"
  shows "\<exists>m. m < length (bb_counts info) \<and> bb_dex_pc (bb_counts info ! m) = pc \<and>
            (\<forall>n. n < m \<longrightarrow> bb_dex_pc (bb_counts info ! n) \<noteq> pc) \<and>
            IncrementBBCount dbg info pc =
              Inr (info\<lparr> bb_counts := (bb_counts info)[m := (bb_counts info ! m)
                \<lparr> count := (if count (bb_counts info ! m) = 0xFFFFFFFF then 0xFFFFFFFF
                             else count (bb_counts info ! m) + 1) \<rparr>] \<rparr>)"
proof -
  from first_match [OF assms] obtain m where m: "m < length (bb_counts info)"
    "bb_dex_pc (bb_counts info ! m) = pc" "\<forall>n. n < m \<longrightarrow> bb_dex_pc (bb_counts info ! n) \<noteq> pc"
    by blast
  then have "IncrementBBCount dbg info pc =
              Inr (info\<lparr> bb_counts := (bb_counts info)[m := (bb_counts info ! m)
                \<lparr> count := (if count (bb_counts info ! m) = 0xFFFFFFFF then 0xFFFFFFFF
                             else count (bb_counts info ! m) + 1) \<rparr>] \<rparr>)"
    unfolding IncrementBBCount_def by (intro IncrementBBCount_from_found) simp_all
  with m show ?thesis by blast
qed

lemma IncrementBBCount_unregistered:
  assumes "pc \<notin> set (map bb_dex_pc (bb_counts info))"
  shows "IncrementBBCount dbg info pc = (if dbg then Inl DCheckFailed else Inr info)"
  unfolding IncrementBBCount_def
  using assms by (intro IncrementBBCount_from_missing) auto

lemma IncrementBBCount_grows:
  assumes "IncrementBBCount dbg info pc = Inr info'"
  shows "counts_grow info info'"
proof (cases "pc \<in> set (map bb_dex_pc (bb_counts info))")
  case False
  with assms have "info' = info"
    by (simp add: IncrementBBCount_unregistered split: if_splits)
  then show ?thesis by (simp add: counts_grow_def)
next
  case True
  from IncrementBBCount_registered [OF True, of dbg] assms obtain m where
    m: "m < length (bb_counts info)" and
    eq: "info' = info\<lparr> bb_counts := (bb_counts info)[m := (bb_counts info ! m)
                \<lparr> count := (if count (bb_counts info ! m) = 0xFFFFFFFF then 0xFFFFFFFF
                             else count (bb_counts info ! m) + 1) \<rparr>] \<rparr>"
    by auto
  have offs: "map bb_dex_pc (bb_counts info') = map bb_dex_pc (bb_counts info)"
    using m by (simp add: eq map_update list_update_same_conv)
  have "unat (count (bb_counts info ! n)) \<le> unat (count (bb_counts info' ! n))"
    if "n < length (bb_counts info)" for n
    using that m by (cases "n = m") (simp_all add: eq u32_saturating_step)
  with offs show ?thesis by (simp add: counts_grow_def)
qed

lemma counts_grow_trans:
  "counts_grow a b \<Longrightarrow> counts_grow b c \<Longrightarrow> counts_grow a c"
proof -
  assume ab: "counts_grow a b" and bc: "counts_grow b c"
  then have len: "length (bb_counts b) = length (bb_counts a)"
    unfolding counts_grow_def by (metis length_map)
  show ?thesis
    using ab bc len unfolding counts_grow_def
    by (auto intro: order_trans)
qed

lemma IncrementBBCount_all_grows:
  "IncrementBBCount_all dbg info pcs = Inr info' \<Longrightarrow> counts_grow info info'"
proof (induction pcs arbitrary: info)
  case Nil
  then show ?case by (simp add: counts_grow_def)
next
  case (Cons pc pcs)
  then obtain info1 where s: "IncrementBBCount dbg info pc = Inr info1"
    and r: "IncrementBBCount_all dbg info1 pcs = Inr info'"
    by (auto split: sum.splits)
  from IncrementBBCount_grows [OF s] Cons.IH [OF r] show ?case
    by (rule counts_grow_trans)
qed

lemma IncrementBBCount_all_returns:
  "set pcs \<subseteq> set (map bb_dex_pc (bb_counts info)) \<or> \<not> dbg \<Longrightarrow>
   \<exists>info'. IncrementBBCount_all dbg info pcs = Inr info'"
proof (induction pcs arbitrary: info)
  case Nil
  then show ?case by simp
next
  case (Cons pc pcs)
  have "\<exists>info1. IncrementBBCount dbg info pc = Inr info1"
  proof (cases "pc \<in> set (map bb_dex_pc (bb_counts info))")
    case True
    from IncrementBBCount_registered [OF True, of dbg] show ?thesis by blast
  next
    case False
    with Cons.prems show ?thesis by (auto simp: IncrementBBCount_unregistered)
  qed
  then obtain info1 where s: "IncrementBBCount dbg info pc = Inr info1" by blast
  from IncrementBBCount_grows [OF s] have "map bb_dex_pc (bb_counts info1) = map bb_dex_pc (bb_counts info)"
    by (simp add: counts_grow_def)
  with Cons.prems have "set pcs \<subseteq> set (map bb_dex_pc (bb_counts info1)) \<or> \<not> dbg"
    by auto
  from Cons.IH [OF this] s show ?case by auto
qed

lemma IncrementBBCount_sample_run:
  "IncrementBBCount_all True sample_info [0, 12, 0] =
     Inr (sample_info\<lparr> bb_counts := [\<lparr> bb_dex_pc = 0, count = 0xFFFFFFFF \<rparr>,
                                      \<lparr> bb_dex_pc = 12, count = 6 \<rparr>] \<rparr>)"
  by (simp add: IncrementBBCount_def IncrementBBCount_from.simps number_of_bb_counts_def
      sample_info_def)

text \<open>
  Claim C5. On a registered offset \<open>IncrementBBCount\<close> returns, with the first counter
  of that offset one higher when it was below \<open>0xFFFFFFFF\<close> and still \<open>0xFFFFFFFF\<close>
  when it was there, so its unsigned value is the old one plus one, capped at
  \<open>2^32 - 1\<close>. Over any sequence of calls that runs to its end the offsets stay and no
  counter gets smaller; and the sequence does run to its end when all its offsets are
  registered, or in a release build.
\<close>

theorem IncrementBBCount_saturates:
  "(pc \<in> set (map bb_dex_pc (bb_counts info)) \<longrightarrow>
      (\<exists>m. m < length (bb_counts info) \<and> bb_dex_pc (bb_counts info ! m) = pc \<and>
           (\<forall>n. n < m \<longrightarrow> bb_dex_pc (bb_counts info ! n) \<noteq> pc) \<and>
           IncrementBBCount dbg info pc =
             Inr (info\<lparr> bb_counts := (bb_counts info)[m := (bb_counts info ! m)
               \<lparr> count := (if count (bb_counts info ! m) = 0xFFFFFFFF then 0xFFFFFFFF
                            else count (bb_counts info ! m) + 1) \<rparr>] \<rparr>) \<and>
           unat (if count (bb_counts info ! m) = 0xFFFFFFFF then 0xFFFFFFFF
                 else count (bb_counts info ! m) + 1) =
             min (unat (count (bb_counts info ! m)) + 1) (2 ^ 32 - 1))) \<and>
   (\<forall>info'. IncrementBBCount_all dbg info pcs = Inr info' \<longrightarrow> counts_grow info info') \<and>
   (set pcs \<subseteq> set (map bb_dex_pc (bb_counts info)) \<or> \<not> dbg \<longrightarrow>
      (\<exists>info'. IncrementBBCount_all dbg info pcs = Inr info'))"
proof (intro conjI impI allI)
  assume reg: "pc \<in> set (map bb_dex_pc (bb_counts info))"
  from IncrementBBCount_registered [OF reg, of dbg] obtain m where
    m: "m < length (bb_counts info)" "bb_dex_pc (bb_counts info ! m) = pc"
       "\<forall>n. n < m \<longrightarrow> bb_dex_pc (bb_counts info ! n) \<noteq> pc"
       "IncrementBBCount dbg info pc =
             Inr (info\<lparr> bb_counts := (bb_counts info)[m := (bb_counts info ! m)
               \<lparr> count := (if count (bb_counts info ! m) = 0xFFFFFFFF then 0xFFFFFFFF
                            else count (bb_counts info ! m) + 1) \<rparr>] \<rparr>)"
    by blast
  have "unat (if count (bb_counts info ! m) = 0xFFFFFFFF then 0xFFFFFFFF
                 else count (bb_counts info ! m) + 1) =
             min (unat (count (bb_counts info ! m)) + 1) (2 ^ 32 - 1)"
  proof (cases "count (bb_counts info ! m) = 0xFFFFFFFF")
    case True
    then show ?thesis by simp
  next
    case False
    have "unat (count (bb_counts info ! m) + 1) < 2 ^ 32"
      using unsigned_less [of "count (bb_counts info ! m) + 1"] by simp
    with False show ?thesis by (simp add: u32_saturating_step)
  qed
  with m show "\<exists>m. m < length (bb_counts info) \<and> bb_dex_pc (bb_counts info ! m) = pc \<and>
           (\<forall>n. n < m \<longrightarrow> bb_dex_pc (bb_counts info ! n) \<noteq> pc) \<and>
           IncrementBBCount dbg info pc =
             Inr (info\<lparr> bb_counts := (bb_counts info)[m := (bb_counts info ! m)
               \<lparr> count := (if count (bb_counts info ! m) = 0xFFFFFFFF then 0xFFFFFFFF
                            else count (bb_counts info ! m) + 1) \<rparr>] \<rparr>) \<and>
           unat (if count (bb_counts info ! m) = 0xFFFFFFFF then 0xFFFFFFFF
                 else count (bb_counts info ! m) + 1) =
             min (unat (count (bb_counts info ! m)) + 1) (2 ^ 32 - 1)"
    by blast
next
  fix info' assume "IncrementBBCount_all dbg info pcs = Inr info'"
  then show "counts_grow info info'" by (rule IncrementBBCount_all_grows)
next
  assume "set pcs \<subseteq> set (map bb_dex_pc (bb_counts info)) \<or> \<not> dbg"
  then show "\<exists>info'. IncrementBBCount_all dbg info pcs = Inr info'"
    by (rule IncrementBBCount_all_returns)
qed

theorem IncrementBBCount_saturates_witness:
  "12 \<in> set (map bb_dex_pc (bb_counts sample_info)) \<and>
   IncrementBBCount True sample_info 0 = Inr sample_info \<and>
   IncrementBBCount_all True sample_info [0, 12, 0] =
     Inr (sample_info\<lparr> bb_counts := [\<lparr> bb_dex_pc = 0, count = 0xFFFFFFFF \<rparr>,
                                      \<lparr> bb_dex_pc = 12, count = 6 \<rparr>] \<rparr>) \<and>
   counts_grow sample_info
     (sample_info\<lparr> bb_counts := [\<lparr> bb_dex_pc = 0, count = 0xFFFFFFFF \<rparr>,
                                  \<lparr> bb_dex_pc = 12, count = 6 \<rparr>] \<rparr>)"
proof -
  have reg: "12 \<in> set (map bb_dex_pc (bb_counts sample_info))"
    by (simp add: sample_info_def)
  have top: "IncrementBBCount True sample_info 0 = Inr sample_info"
    by (simp add: IncrementBBCount_def IncrementBBCount_from.simps number_of_bb_counts_def
        sample_info_def)
  from IncrementBBCount_saturates [of 12 sample_info True "[0, 12, 0]"]
    IncrementBBCount_sample_run
  have "counts_grow sample_info
     (sample_info\<lparr> bb_counts := [\<lparr> bb_dex_pc = 0, count = 0xFFFFFFFF \<rparr>,
                                  \<lparr> bb_dex_pc = 12, count = 6 \<rparr>] \<rparr>)"
    by simp
  with reg top IncrementBBCount_sample_run show ?thesis
    by simp
qed

section \<open>Offsets and kinds that were never registered\<close>

lemma GetInlineCache_unregistered:
  assumes "pc \<notin> set (map cache_dex_pc (cache info))"
  shows "GetInlineCache info pc = None"
proof (cases "GetInlineCache info pc")
  case None
  then show ?thesis .
next
  case (Some j)
  then have "j < length (cache info) \<and> cache_dex_pc (cache info ! j) = pc"
    by (auto simp: GetInlineCache_def dest: GetInlineCache_from_Some)
  then have "pc \<in> set (map cache_dex_pc (cache info))"
    using nth_mem [of j "cache info"] by auto
  with assms show ?thesis by simp
qed

text \<open>
  Claim C6, as the code has it. \<open>AddInvokeInfo\<close> on an offset with no inline cache
  aborts in every build (a \<open>CHECK\<close>). \<open>IncrementBBCount\<close> on an offset with no
  counter aborts in a debug build only (a \<open>DCHECK\<close>); in a release build it returns
  and leaves the record as it was. A node of a kind the cloner does not override aborts
  the visit in a debug build, and takes the unsupported path in a release build.
\<close>

theorem unregistered_offset_or_kind:
  "(pc \<notin> set (map cache_dex_pc (cache info)) \<longrightarrow>
      AddInvokeInfo k info pc cls = Inl CheckFailed) \<and>
   (pc \<notin> set (map bb_dex_pc (bb_counts info)) \<longrightarrow>
      IncrementBBCount dbg info pc = (if dbg then Inl DCheckFailed else Inr info)) \<and>
   (DebugName n \<notin> set unsupported_kinds \<and> DebugName n \<notin> set cloneable_kinds \<longrightarrow>
      Visit dbg nc c n = (if dbg then Inl LogFatal else Inr (UnsupportedInstruction c n)))"
proof (intro conjI impI)
  assume "pc \<notin> set (map cache_dex_pc (cache info))"
  then have "GetInlineCache info pc = None"
    by (rule GetInlineCache_unregistered)
  then show "AddInvokeInfo k info pc cls = Inl CheckFailed"
    by (simp add: AddInvokeInfo_def)
next
  assume "pc \<notin> set (map bb_dex_pc (bb_counts info))"
  then show "IncrementBBCount dbg info pc = (if dbg then Inl DCheckFailed else Inr info)"
    by (rule IncrementBBCount_unregistered)
next
  assume "DebugName n \<notin> set unsupported_kinds \<and> DebugName n \<notin> set cloneable_kinds"
  then show "Visit dbg nc c n = (if dbg then Inl LogFatal else Inr (UnsupportedInstruction c n))"
    by (simp add: Visit_def VisitInstruction_def)
qed

theorem unregistered_offset_or_kind_witness:
  "99 \<notin> set (map cache_dex_pc (cache sample_info)) \<and>
   AddInvokeInfo 2 sample_info 99 11 = Inl CheckFailed \<and>
   99 \<notin> set (map bb_dex_pc (bb_counts sample_info)) \<and>
   IncrementBBCount True sample_info 99 = Inl DCheckFailed \<and>
   DebugName unknown_node \<notin> set unsupported_kinds \<and>
   DebugName unknown_node \<notin> set cloneable_kinds \<and>
   Visit True sample_new_clone sample_cloner unknown_node = Inl LogFatal"
proof -
  have a: "99 \<notin> set (map cache_dex_pc (cache sample_info))"
    and b: "99 \<notin> set (map bb_dex_pc (bb_counts sample_info))"
    by (simp_all add: sample_info_def)
  have k: "DebugName unknown_node \<notin> set unsupported_kinds"
    "DebugName unknown_node \<notin> set cloneable_kinds"
    by (simp_all add: unknown_node_def unsupported_kinds_def cloneable_kinds_def)
  from unregistered_offset_or_kind
    [of 99 sample_info 2 11 True unknown_node sample_new_clone sample_cloner] a b k
  show ?thesis by simp
qed

text \<open>
  In a release build \<open>IncrementBBCount\<close> on an offset that was never registered
  returns, with the record unchanged: nothing aborts.
\<close>

theorem IncrementBBCount_release_counterexample:
  "99 \<notin> set (map bb_dex_pc (bb_counts sample_info)) \<and>
   IncrementBBCount False sample_info 99 = Inr sample_info"
  by (simp add: IncrementBBCount_def IncrementBBCount_from.simps number_of_bb_counts_def
      sample_info_def)

section \<open>Properties of Create\<close>

declare insert_targets.simps [simp del]

lemma offsets_from_bounds:
  "q \<in> offsets_from At units p \<Longrightarrow> p \<le> q \<and> q < length units"
  by (induction rule: offsets_from.induct) auto

lemma offsets_from_empty:
  "\<not> p < length units \<Longrightarrow> offsets_from At units p = {}"
  using offsets_from_bounds [of _ At units p] by fastforce

lemma offsets_from_next:
  assumes "q \<in> offsets_from At units (p + SizeInCodeUnits (At units p))" and "p < length units"
  shows "q \<in> offsets_from At units p"
  using assms
proof (induction rule: offsets_from.induct)
  case start
  then show ?case by (intro offsets_from.step offsets_from.start)
next
  case (step q)
  then show ?case by (intro offsets_from.step) simp_all
qed

lemma offsets_from_cases:
  assumes "q \<in> offsets_from At units p"
  shows "q = p \<or> q \<in> offsets_from At units (p + SizeInCodeUnits (At units p))"
  using assms
proof (induction rule: offsets_from.induct)
  case start
  then show ?case by simp
next
  case (step q)
  then show ?case
    by (auto intro: offsets_from.start offsets_from.step)
qed

lemma offsets_from_unfold:
  assumes "p < length units"
  shows "offsets_from At units p =
           insert p (offsets_from At units (p + SizeInCodeUnits (At units p)))"
  using assms
  by (auto intro: offsets_from.start offsets_from_next dest: offsets_from_cases)

lemma read_unit_in:
  "j < length units \<Longrightarrow> read_unit units (int j) = Inr (units ! j)"
  by (simp add: read_unit_def)

lemma read_int32_in:
  "j + 1 < length units \<Longrightarrow> read_int32 units (int j) = Inr (int32_at units j)"
proof -
  assume a: "j + 1 < length units"
  then have "read_unit units (int j) = Inr (units ! j)"
    by (intro read_unit_in) simp
  moreover have "read_unit units (int j + 1) = Inr (units ! (j + 1))"
    using read_unit_in [of "j + 1" units] a by (simp add: add.commute)
  ultimately show ?thesis
    by (simp add: read_int32_def int32_at_def)
qed

lemma insert_targets_in:
  "table + 2 * sz \<le> length units \<Longrightarrow> i \<le> sz \<Longrightarrow>
   insert_targets units (int table) dex sz i starts =
     Inr (starts \<union> (\<lambda>n. dex + int32_at units (table + 2 * n)) ` {i..<sz})"
proof (induction "sz - i" arbitrary: i starts)
  case 0
  then show ?case by (subst insert_targets.simps) simp
next
  case (Suc d)
  then have lt: "i < sz" by simp
  with Suc.prems have "(table + 2 * i) + 1 < length units" by simp
  from read_int32_in [OF this]
  have rd: "read_int32 units (int table + 2 * int i) = Inr (int32_at units (table + 2 * i))"
    by simp
  have "d = sz - (i + 1)" using Suc.hyps(2) by simp
  from Suc.hyps(1) [OF this Suc.prems(1)] lt
  have ih: "insert_targets units (int table) dex sz (i + 1)
              (insert (dex + int32_at units (table + 2 * i)) starts) =
            Inr (insert (dex + int32_at units (table + 2 * i)) starts \<union>
                 (\<lambda>n. dex + int32_at units (table + 2 * n)) ` {i + 1..<sz})"
    by simp
  have "{i..<sz} = insert i {i + 1..<sz}" using lt by auto
  then show ?case using lt rd ih
    by (subst insert_targets.simps) simp
qed

lemma Create_switch_entries:
  "Create_switch units p dex ins entries starts = Inr (es, ss) \<Longrightarrow>
   es = entries @ (if is_invoke ins then [dex] else [])"
  by (auto simp: Create_switch_def is_invoke_def Let_def split: if_splits sum.splits)

lemma Create_switch_plain:
  assumes "\<not> is_switch ins"
  shows "Create_switch units p (of_nat p) ins entries starts =
           Inr (entries @ (if is_invoke ins then [of_nat p] else []),
                starts \<union> branch_starts units p ins)"
  using assms
  by (auto simp: Create_switch_def is_invoke_def is_goto_def is_conditional_def is_switch_def
      branch_starts_def)

lemma switch_payload_targets:
  assumes sw: "is_switch ins" and b: "payload_in_bounds units p ins"
  shows "read_unit units (payload_start p ins + 1) = Inr (units ! nat (payload_start p ins + 1))"
    and "insert_targets units (int (first_target units p ins)) dex (payload_size units p ins) 0 starts =
           Inr (starts \<union> (\<lambda>n. dex + int32_at units (first_target units p ins + 2 * n)) `
                            {..< payload_size units p ins})"
proof -
  from b show "read_unit units (payload_start p ins + 1) = Inr (units ! nat (payload_start p ins + 1))"
    by (simp add: payload_in_bounds_def read_unit_def)
  from b have "first_target units p ins + 2 * payload_size units p ins \<le> length units"
    by (simp add: payload_in_bounds_def)
  from insert_targets_in [OF this, of 0 dex starts]
  show "insert_targets units (int (first_target units p ins)) dex (payload_size units p ins) 0 starts =
           Inr (starts \<union> (\<lambda>n. dex + int32_at units (first_target units p ins + 2 * n)) `
                            {..< payload_size units p ins})"
    by (simp add: atLeast0LessThan)
qed

lemma Create_switch_switch:
  assumes sw: "is_switch ins" and three: "SizeInCodeUnits ins = 3"
    and b: "payload_in_bounds units p ins"
  shows "Create_switch units p (of_nat p) ins entries starts =
           Inr (entries, starts \<union> branch_starts units p ins)"
proof -
  from b have q: "0 \<le> payload_start p ins"
    by (simp add: payload_in_bounds_def)
  note rd = switch_payload_targets(1) [OF sw b]
  note tg = switch_payload_targets(2) [OF sw b, of "of_nat p" "insert (of_nat p + 3) starts"]
  have bs: "branch_starts units p ins = insert (of_nat p + 3) (case_targets units p ins)"
    using sw three by (auto simp: branch_starts_def is_switch_def is_goto_def is_conditional_def)
  show ?thesis
  proof (cases "Opcode ins = PACKED_SWITCH")
    case True
    then have ft: "int (first_target units p ins) = int p + sint (VRegB_31t ins) + 4"
      using q by (simp add: first_target_def payload_start_def)
    show ?thesis
      using True rd tg
      unfolding ft
      by (simp add: Create_switch_def Let_def payload_start_def [symmetric] payload_size_def [symmetric]
          bs case_targets_def)
  next
    case False
    with sw have sp: "Opcode ins = SPARSE_SWITCH" by (simp add: is_switch_def)
    then have ft: "int (first_target units p ins) =
        int p + sint (VRegB_31t ins) + 2 + 2 * int (payload_size units p ins)"
      using q by (simp add: first_target_def payload_start_def)
    show ?thesis
      using sp rd tg
      unfolding ft
      by (simp add: Create_switch_def Let_def payload_start_def [symmetric] payload_size_def [symmetric]
          bs case_targets_def)
  qed
qed

lemma Create_switch_result:
  assumes "is_switch ins \<longrightarrow> SizeInCodeUnits ins = 3 \<and> payload_in_bounds units p ins"
  shows "Create_switch units p (of_nat p) ins entries starts =
           Inr (entries @ (if is_invoke ins then [of_nat p] else []),
                starts \<union> branch_starts units p ins)"
proof (cases "is_switch ins")
  case True
  then have "\<not> is_invoke ins" by (auto simp: is_switch_def is_invoke_def)
  with True assms Create_switch_switch [of ins units p entries starts] show ?thesis by simp
next
  case False
  then show ?thesis by (rule Create_switch_plain)
qed

lemma Create_loop_result:
  assumes pos: "positive_sizes At units"
  shows "\<forall>q \<in> offsets_from At units p. is_switch (At units q) \<longrightarrow>
            SizeInCodeUnits (At units q) = 3 \<and> payload_in_bounds units q (At units q) \<Longrightarrow>
         \<exists>qs. Create_loop At units p (of_nat p) entries starts =
                 Some (Inr (entries @ map of_nat qs,
                            starts \<union> (\<Union>q \<in> offsets_from At units p.
                                          branch_starts units q (At units q)))) \<and>
              sorted_wrt (<) qs \<and>
              set qs = {q \<in> offsets_from At units p. is_invoke (At units q)}"
proof (induction "length units - p" arbitrary: p entries starts rule: less_induct)
  case less
  show ?case
  proof (cases "p < length units")
    case False
    then have "Create_loop At units p (of_nat p) entries starts = Some (Inr (entries, starts))"
      by (subst Create_loop.simps) simp
    with False show ?thesis
      by (intro exI [of _ "[]"]) (simp add: offsets_from_empty)
  next
    case True
    let ?ins = "At units p"
    let ?s = "SizeInCodeUnits ?ins"
    let ?p' = "p + ?s"
    from pos True have s: "0 < ?s"
      by (simp add: positive_sizes_def)
    have here: "p \<in> offsets_from At units p"
      using True by (rule offsets_from.start)
    with less.prems have
      "is_switch ?ins \<longrightarrow> SizeInCodeUnits ?ins = 3 \<and> payload_in_bounds units p ?ins"
      by blast
    from Create_switch_result [OF this]
    have sw: "Create_switch units p (of_nat p) ?ins entries starts =
           Inr (entries @ (if is_invoke ?ins then [of_nat p] else []),
                starts \<union> branch_starts units p ?ins)" .
    have rest: "\<forall>q \<in> offsets_from At units ?p'. is_switch (At units q) \<longrightarrow>
            SizeInCodeUnits (At units q) = 3 \<and> payload_in_bounds units q (At units q)"
      using less.prems True by (blast intro: offsets_from_next)
    have smaller: "length units - ?p' < length units - p"
      using s True by simp
    from less.hyps [OF smaller rest,
        of "entries @ (if is_invoke ?ins then [of_nat p] else [])"
           "starts \<union> branch_starts units p ?ins"]
    obtain qs where
      r: "Create_loop At units ?p' (of_nat ?p')
            (entries @ (if is_invoke ?ins then [of_nat p] else []))
            (starts \<union> branch_starts units p ?ins) =
          Some (Inr ((entries @ (if is_invoke ?ins then [of_nat p] else [])) @ map of_nat qs,
                     (starts \<union> branch_starts units p ?ins) \<union>
                     (\<Union>q \<in> offsets_from At units ?p'. branch_starts units q (At units q))))"
      and so: "sorted_wrt (<) qs"
      and se: "set qs = {q \<in> offsets_from At units ?p'. is_invoke (At units q)}"
      by blast
    have unf: "offsets_from At units p = insert p (offsets_from At units ?p')"
      using True by (rule offsets_from_unfold)
    have above: "\<forall>q \<in> set qs. p < q"
      using se s offsets_from_bounds [of _ At units ?p'] by fastforce
    define qs0 where "qs0 = (if is_invoke ?ins then [p] else []) @ qs"
    have loop: "Create_loop At units p (of_nat p) entries starts =
        Some (Inr (entries @ map of_nat qs0,
                   starts \<union> (\<Union>q \<in> offsets_from At units p. branch_starts units q (At units q))))"
      using True sw r unfolding unf qs0_def
      by (subst Create_loop.simps) (simp add: Un_assoc)
    have "sorted_wrt (<) qs0"
      using so above by (simp add: qs0_def)
    moreover have "set qs0 = {q \<in> offsets_from At units p. is_invoke (At units q)}"
      unfolding unf qs0_def using se by auto
    ultimately show ?thesis using loop by blast
  qed
qed

lemma Create_loop_entries:
  assumes pos: "positive_sizes At units"
  shows "Create_loop At units p (of_nat p) entries starts = Some (Inr (es, ss)) \<Longrightarrow>
         \<exists>qs. es = entries @ map of_nat qs \<and> sorted_wrt (<) qs \<and>
              (\<forall>q \<in> set qs. p \<le> q \<and> q < length units)"
proof (induction "length units - p" arbitrary: p entries starts rule: less_induct)
  case less
  show ?case
  proof (cases "p < length units")
    case False
    with less.prems have "es = entries"
      by (subst (asm) Create_loop.simps) simp
    then show ?thesis by (intro exI [of _ "[]"]) simp
  next
    case True
    let ?ins = "At units p"
    let ?s = "SizeInCodeUnits ?ins"
    let ?p' = "p + ?s"
    from pos True have s: "0 < ?s"
      by (simp add: positive_sizes_def)
    from less.prems True obtain es1 ss1 where
      sw: "Create_switch units p (of_nat p) ?ins entries starts = Inr (es1, ss1)"
      and r: "Create_loop At units ?p' (of_nat ?p') es1 ss1 = Some (Inr (es, ss))"
      by (subst (asm) Create_loop.simps) (auto split: sum.splits)
    from Create_switch_entries [OF sw]
    have es1: "es1 = entries @ (if is_invoke ?ins then [of_nat p] else [])" .
    have smaller: "length units - ?p' < length units - p"
      using s True by simp
    from less.hyps [OF smaller r] obtain qs where
      qs: "es = es1 @ map of_nat qs" "sorted_wrt (<) qs"
          "\<forall>q \<in> set qs. ?p' \<le> q \<and> q < length units"
      by blast
    define qs0 where "qs0 = (if is_invoke ?ins then [p] else []) @ qs"
    have "es = entries @ map of_nat qs0"
      using qs(1) es1 by (simp add: qs0_def)
    moreover have "sorted_wrt (<) qs0"
      using qs(2,3) s by (auto simp: qs0_def)
    moreover have "\<forall>q \<in> set qs0. p \<le> q \<and> q < length units"
      using qs(3) True by (auto simp: qs0_def)
    ultimately show ?thesis by blast
  qed
qed

lemma Create_loop_returns:
  assumes pos: "positive_sizes At units"
  shows "\<exists>r. Create_loop At units p dex entries starts = Some r"
proof (induction "length units - p" arbitrary: p dex entries starts rule: less_induct)
  case less
  show ?case
  proof (cases "p < length units")
    case False
    then show ?thesis by (subst Create_loop.simps) simp
  next
    case True
    with pos have "0 < SizeInCodeUnits (At units p)"
      by (simp add: positive_sizes_def)
    with True have "length units - (p + SizeInCodeUnits (At units p)) < length units - p"
      by simp
    from less.hyps [OF this] True show ?thesis
      by (subst Create_loop.simps) (auto split: sum.splits)
  qed
qed

lemma fold_insert_set: "fold insert xs S = S \<union> set xs"
  by (induction xs arbitrary: S) auto

lemma add_catch_clauses_eq:
  "add_catch_clauses ts S = S \<union> (\<Union>t \<in> set ts. set (handlers t))"
  unfolding add_catch_clauses_def
  by (induction ts arbitrary: S) (auto simp: fold_insert_set)

lemma Create_result:
  assumes pos: "positive_sizes At (insns (GetCodeItem m))"
    and sw: "switches_well_formed At (insns (GetCodeItem m))"
    and nat: "\<not> (dbg \<and> IsNative m)"
  shows "\<exists>entries. Create dbg At m =
           Some (Inr (entries, sorted_list_of_set (block_starts At (GetCodeItem m))))"
proof -
  let ?units = "insns (GetCodeItem m)"
  from sw have "\<forall>q \<in> offsets_from At ?units 0. is_switch (At ?units q) \<longrightarrow>
            SizeInCodeUnits (At ?units q) = 3 \<and> payload_in_bounds ?units q (At ?units q)"
    by (simp add: switches_well_formed_def)
  from Create_loop_result [OF pos this, of "[]" "{0}"] obtain qs where
    "Create_loop At ?units 0 0 [] {0} =
       Some (Inr (map of_nat qs,
                  {0} \<union> (\<Union>q \<in> offsets_from At ?units 0. branch_starts ?units q (At ?units q))))"
    by auto
  with nat show ?thesis
    by (auto simp: Create_def add_catch_clauses_eq block_starts_def)
qed

lemma u32_of_nat_inj:
  assumes "x < 2 ^ 32" "y < 2 ^ 32" "(of_nat x :: u32) = of_nat y"
  shows "x = y"
proof -
  have "unat (of_nat x :: u32) = x"
    using assms(1) by (simp add: of_nat_inverse [OF refl])
  moreover have "unat (of_nat y :: u32) = y"
    using assms(2) by (simp add: of_nat_inverse [OF refl])
  ultimately show ?thesis using assms(3) by metis
qed

lemma distinct_offsets:
  assumes "sorted_wrt (<) qs" and "\<forall>q \<in> set qs. q < 2 ^ 32"
  shows "distinct (map of_nat qs :: u32 list)"
proof -
  from assms(1) have "distinct qs"
    by (simp add: strict_sorted_iff)
  moreover have "inj_on (of_nat :: nat \<Rightarrow> u32) (set qs)"
  proof (rule inj_onI)
    fix x y assume "x \<in> set qs" "y \<in> set qs" "(of_nat x :: u32) = of_nat y"
    with assms(2) have "x < 2 ^ 32" "y < 2 ^ 32" by auto
    then show "x = y" using \<open>(of_nat x :: u32) = of_nat y\<close> by (rule u32_of_nat_inj)
  qed
  ultimately show ?thesis by (simp add: distinct_map)
qed

lemma AddInvokeInfo_shape:
  assumes "AddInvokeInfo k info pc cls = Inr (info', ws)"
  shows "map cache_dex_pc (cache info') = map cache_dex_pc (cache info) \<and>
         bb_counts info' = bb_counts info"
proof (cases "GetInlineCache info pc")
  case None
  with assms show ?thesis by (simp add: AddInvokeInfo_def)
next
  case (Some j)
  from AddInvokeInfo_registered [OF Some, of k cls] assms show ?thesis
    by (auto simp: cache_update_offsets)
qed

lemma IncrementBBCount_shape:
  assumes "IncrementBBCount dbg info pc = Inr info'"
  shows "cache info' = cache info \<and>
         map bb_dex_pc (bb_counts info') = map bb_dex_pc (bb_counts info)"
proof -
  from IncrementBBCount_grows [OF assms]
  have offs: "map bb_dex_pc (bb_counts info') = map bb_dex_pc (bb_counts info)"
    by (simp add: counts_grow_def)
  have "cache info' = cache info"
  proof (cases "pc \<in> set (map bb_dex_pc (bb_counts info))")
    case True
    from IncrementBBCount_registered [OF True, of dbg] assms show ?thesis by auto
  next
    case False
    from IncrementBBCount_unregistered [OF False, of dbg] assms show ?thesis
      by (auto split: if_splits)
  qed
  with offs show ?thesis by simp
qed

lemma apply_ops_shape:
  "apply_ops dbg k info ops = Inr info' \<Longrightarrow>
   map cache_dex_pc (cache info') = map cache_dex_pc (cache info) \<and>
   map bb_dex_pc (bb_counts info') = map bb_dex_pc (bb_counts info)"
proof (induction ops arbitrary: info)
  case Nil
  then show ?case by simp
next
  case (Cons op ops)
  show ?case
  proof (cases op)
    case (AddInvoke pc cls)
    with Cons.prems obtain info1 ws where
      s: "AddInvokeInfo k info pc cls = Inr (info1, ws)" and r: "apply_ops dbg k info1 ops = Inr info'"
      by (auto split: sum.splits)
    from AddInvokeInfo_shape [OF s] Cons.IH [OF r] show ?thesis by simp
  next
    case (IncrementBB pc)
    with Cons.prems obtain info1 where
      s: "IncrementBBCount dbg info pc = Inr info1" and r: "apply_ops dbg k info1 ops = Inr info'"
      by (auto split: sum.splits)
    from IncrementBBCount_shape [OF s] Cons.IH [OF r] show ?thesis by simp
  qed
qed

lemma sample_At_positive: "positive_sizes sample_At units"
  by (simp add: positive_sizes_def sample_At_def)

lemma straight_line:
  "\<forall>q \<in> {0..<n}. SizeInCodeUnits (At units q) = 1 \<Longrightarrow> n < length units \<Longrightarrow>
   n \<in> offsets_from At units 0"
proof (induction n)
  case 0
  then show ?case by (simp add: offsets_from.start)
next
  case (Suc n)
  then have "n \<in> offsets_from At units 0" by simp
  moreover have "SizeInCodeUnits (At units n) = 1" using Suc.prems by simp
  ultimately show ?case
    using offsets_from.step [of n At units 0] Suc.prems(2) by simp
qed

lemma no_switch_well_formed:
  "\<forall>p \<in> {0..<length units}. \<not> is_switch (At units p) \<Longrightarrow> switches_well_formed At units"
  unfolding switches_well_formed_def
  using offsets_from_bounds [of _ At units 0] by fastforce

lemma branch_units:
  "\<forall>p \<in> {0..<31}. p \<noteq> 10 \<longrightarrow>
     \<not> is_goto (sample_At (insns branch_code) p) \<and>
     \<not> is_conditional (sample_At (insns branch_code) p) \<and>
     \<not> is_switch (sample_At (insns branch_code) p)"
  by code_simp

lemma branch_units_size:
  "\<forall>q \<in> {0..<10}. SizeInCodeUnits (sample_At (insns branch_code) q) = 1"
  by code_simp

lemma branch_length: "length (insns branch_code) = 31"
  by (simp add: branch_code_def)


lemma branch_well_formed: "switches_well_formed sample_At (insns branch_code)"
proof (rule no_switch_well_formed)
  show "\<forall>p \<in> {0..<length (insns branch_code)}. \<not> is_switch (sample_At (insns branch_code) p)"
    unfolding branch_length using branch_units
    by (auto simp: is_switch_def sample_At_def branch_code_def)
qed

lemma branch_ten: "10 \<in> offsets_from sample_At (insns branch_code) 0"
  using branch_units_size
  by (rule straight_line [of 10 sample_At "insns branch_code"]) (simp add: branch_length)

lemma branch_others:
  "\<forall>p \<in> offsets_from sample_At (insns branch_code) 0. p \<noteq> 10 \<longrightarrow>
     \<not> is_goto (sample_At (insns branch_code) p) \<and>
     \<not> is_conditional (sample_At (insns branch_code) p) \<and>
     \<not> is_switch (sample_At (insns branch_code) p)"
proof
  fix p assume "p \<in> offsets_from sample_At (insns branch_code) 0"
  then have "p \<in> {0..<31}"
    using offsets_from_bounds [of p sample_At "insns branch_code" 0] by (simp add: branch_length)
  with branch_units show "p \<noteq> 10 \<longrightarrow>
     \<not> is_goto (sample_At (insns branch_code) p) \<and>
     \<not> is_conditional (sample_At (insns branch_code) p) \<and>
     \<not> is_switch (sample_At (insns branch_code) p)"
    by blast
qed

lemma sorted_three: "sorted_list_of_set {0, 12, 30 :: u32} = [0, 12, 30]"
proof -
  have "sorted_list_of_set (set [0, 12, 30 :: u32]) = [0, 12, 30]"
    by (rule sorted_list_of_set.idem_if_sorted_distinct) simp_all
  then show ?thesis by simp
qed

lemma branch_Create: "Create True sample_At branch_method = Some (Inr ([], [0, 12, 30]))"
proof -
  have "Create_loop sample_At (insns branch_code) 0 0 [] {0} = Some (Inr ([], {0, 12, 30}))"
    by (simp add: Create_loop.simps Create_switch_def sample_At_def branch_code_def insert_commute)
  then show ?thesis
    by (simp add: Create_def branch_method_def add_catch_clauses_def sorted_three)
       (simp add: branch_code_def)
qed

lemma switch_info:
  "new_ProfilingInfo True 2 sample_method [0] [0, 6, 7, 8] =
     Inr \<lparr> cache = [\<lparr> cache_dex_pc = 0, classes = [nullptr, nullptr] \<rparr>],
           bb_counts = [\<lparr> bb_dex_pc = 0, count = 0 \<rparr>, \<lparr> bb_dex_pc = 6, count = 0 \<rparr>,
                        \<lparr> bb_dex_pc = 7, count = 0 \<rparr>, \<lparr> bb_dex_pc = 8, count = 0 \<rparr>],
           art_method = sample_method,
           is_method_being_compiled = False,
           is_osr_method_being_compiled = False,
           current_inline_uses = 0,
           saved_entry_point = nullptr,
           holding_class = 7 \<rparr>"
  by (simp add: new_ProfilingInfo_def Let_def sample_method_def nullptr_def numeral_2_eq_2)

lemma checked_well_formed:
  "\<forall>p \<in> {0..<length units}. is_switch (At units p) \<longrightarrow>
      SizeInCodeUnits (At units p) = 3 \<and> payload_in_bounds units p (At units p) \<Longrightarrow>
   switches_well_formed At units"
  unfolding switches_well_formed_def
  using offsets_from_bounds [of _ At units 0] by fastforce

lemma switch_units:
  "\<forall>p \<in> {0..<16}. is_switch (sample_At (insns switch_code) p) \<longrightarrow>
      SizeInCodeUnits (sample_At (insns switch_code) p) = 3 \<and>
      payload_in_bounds (insns switch_code) p (sample_At (insns switch_code) p)"
  by code_simp

lemma switch_is_switch: "is_switch (sample_At (insns switch_code) 3)"
  by code_simp

lemma switch_three: "3 \<in> offsets_from sample_At (insns switch_code) 0"
proof -
  have z: "0 \<in> offsets_from sample_At (insns switch_code) 0"
    by (rule offsets_from.start) (simp add: switch_code_def)
  have "SizeInCodeUnits (sample_At (insns switch_code) 0) = 3"
    by (simp add: sample_At_def switch_code_def)
  with offsets_from.step [OF z] show ?thesis
    by (simp add: switch_code_def)
qed

lemma switch_well_formed: "switches_well_formed sample_At (insns switch_code)"
proof (rule checked_well_formed)
  have "length (insns switch_code) = 16" by (simp add: switch_code_def)
  with switch_units show "\<forall>p \<in> {0..<length (insns switch_code)}.
      is_switch (sample_At (insns switch_code) p) \<longrightarrow>
      SizeInCodeUnits (sample_At (insns switch_code) p) = 3 \<and>
      payload_in_bounds (insns switch_code) p (sample_At (insns switch_code) p)"
    by simp
qed

text \<open>
  Claim C2. Let the decoder give every instruction at least one unit and every switch
  three units, and let the payload of every switch lie in the code units. Then
  \<open>Create\<close> returns, and the offsets it passes on are exactly the block starts of
  the specification: offset 0; the target of every goto; the fall-through and the
  target of every conditional branch; the offset after every switch and its decoded case
  targets; every handler address of the try items; nothing else. In particular, when
  the only branch is a conditional one at offset 10, two units long, with target 30,
  and there is no try item, the block starts are 0, 12 and 30.
\<close>

theorem Create_block_starts:
  assumes "positive_sizes At (insns (GetCodeItem m))"
    and "switches_well_formed At (insns (GetCodeItem m))"
    and "\<not> (dbg \<and> IsNative m)"
  shows "\<exists>entries dex_pcs.
           Create dbg At m = Some (Inr (entries, dex_pcs)) \<and>
           set dex_pcs = block_starts At (GetCodeItem m) \<and>
           (10 \<in> offsets_from At (insns (GetCodeItem m)) 0 \<and>
            is_conditional (At (insns (GetCodeItem m)) 10) \<and>
            SizeInCodeUnits (At (insns (GetCodeItem m)) 10) = 2 \<and>
            10 + GetTargetOffset (At (insns (GetCodeItem m)) 10) = 30 \<and>
            (\<forall>p \<in> offsets_from At (insns (GetCodeItem m)) 0. p \<noteq> 10 \<longrightarrow>
               \<not> is_goto (At (insns (GetCodeItem m)) p) \<and>
               \<not> is_conditional (At (insns (GetCodeItem m)) p) \<and>
               \<not> is_switch (At (insns (GetCodeItem m)) p)) \<and>
            tries (GetCodeItem m) = []
            \<longrightarrow> set dex_pcs = {0, 12, 30})"
proof -
  let ?units = "insns (GetCodeItem m)"
  from Create_result [OF assms] obtain entries where
    c: "Create dbg At m = Some (Inr (entries, sorted_list_of_set (block_starts At (GetCodeItem m))))"
    by blast
  have s: "set (sorted_list_of_set (block_starts At (GetCodeItem m))) = block_starts At (GetCodeItem m)"
    by simp
  have ex: "block_starts At (GetCodeItem m) = {0, 12, 30}"
    if ten: "10 \<in> offsets_from At ?units 0"
      and cond: "is_conditional (At ?units 10)"
      and two: "SizeInCodeUnits (At ?units 10) = 2"
      and tgt: "10 + GetTargetOffset (At ?units 10) = 30"
      and others: "\<forall>p \<in> offsets_from At ?units 0. p \<noteq> 10 \<longrightarrow>
               \<not> is_goto (At ?units p) \<and> \<not> is_conditional (At ?units p) \<and> \<not> is_switch (At ?units p)"
      and nt: "tries (GetCodeItem m) = []"
  proof -
    from cond have ng: "\<not> is_goto (At ?units 10)"
      by (auto simp: is_conditional_def is_goto_def)
    have at10: "branch_starts ?units 10 (At ?units 10) = {12, 30}"
      using cond ng two tgt by (simp add: branch_starts_def)
    have other: "branch_starts ?units p (At ?units p) = {}"
      if "p \<in> offsets_from At ?units 0" "p \<noteq> 10" for p
      using others that by (simp add: branch_starts_def)
    have "(\<Union>p \<in> offsets_from At ?units 0. branch_starts ?units p (At ?units p)) = {12, 30}"
    proof
      show "(\<Union>p \<in> offsets_from At ?units 0. branch_starts ?units p (At ?units p)) \<subseteq> {12, 30}"
      proof
        fix x assume "x \<in> (\<Union>p \<in> offsets_from At ?units 0. branch_starts ?units p (At ?units p))"
        then obtain p where p: "p \<in> offsets_from At ?units 0" "x \<in> branch_starts ?units p (At ?units p)"
          by blast
        with other [of p] have "p = 10" by auto
        with p at10 show "x \<in> {12, 30}" by simp
      qed
    next
      show "{12, 30} \<subseteq> (\<Union>p \<in> offsets_from At ?units 0. branch_starts ?units p (At ?units p))"
        using ten at10 by blast
    qed
    then show ?thesis by (auto simp: block_starts_def nt)
  qed
  from c s ex show ?thesis by auto
qed

theorem Create_block_starts_witness:
  "positive_sizes sample_At (insns (GetCodeItem branch_method)) \<and>
   switches_well_formed sample_At (insns (GetCodeItem branch_method)) \<and>
   \<not> (True \<and> IsNative branch_method) \<and>
   Create True sample_At branch_method = Some (Inr ([], [0, 12, 30])) \<and>
   block_starts sample_At (GetCodeItem branch_method) = {0, 12, 30} \<and>
   10 \<in> offsets_from sample_At (insns (GetCodeItem branch_method)) 0 \<and>
   is_conditional (sample_At (insns (GetCodeItem branch_method)) 10) \<and>
   SizeInCodeUnits (sample_At (insns (GetCodeItem branch_method)) 10) = 2 \<and>
   10 + GetTargetOffset (sample_At (insns (GetCodeItem branch_method)) 10) = 30 \<and>
   positive_sizes sample_At (insns (GetCodeItem sample_method)) \<and>
   switches_well_formed sample_At (insns (GetCodeItem sample_method)) \<and>
   3 \<in> offsets_from sample_At (insns (GetCodeItem sample_method)) 0 \<and>
   is_switch (sample_At (insns (GetCodeItem sample_method)) 3) \<and>
   Create True sample_At sample_method = Some (Inr ([0], [0, 6, 7, 8])) \<and>
   block_starts sample_At (GetCodeItem sample_method) = {0, 6, 7, 8}"
proof -
  have code: "GetCodeItem branch_method = branch_code"
    by (simp add: branch_method_def)
  have pos: "positive_sizes sample_At (insns (GetCodeItem branch_method))"
    by (rule sample_At_positive)
  have wf: "switches_well_formed sample_At (insns (GetCodeItem branch_method))"
    unfolding code by (rule branch_well_formed)
  have nn: "\<not> (True \<and> IsNative branch_method)"
    by (simp add: branch_method_def)
  have ten: "10 \<in> offsets_from sample_At (insns (GetCodeItem branch_method)) 0"
    unfolding code by (rule branch_ten)
  have at10: "is_conditional (sample_At (insns (GetCodeItem branch_method)) 10)"
    "SizeInCodeUnits (sample_At (insns (GetCodeItem branch_method)) 10) = 2"
    "10 + GetTargetOffset (sample_At (insns (GetCodeItem branch_method)) 10) = 30"
    unfolding code by (simp_all add: is_conditional_def sample_At_def branch_code_def)
  from Create_block_starts [OF pos wf nn] obtain entries dex_pcs where
    "Create True sample_At branch_method = Some (Inr (entries, dex_pcs))"
    "set dex_pcs = block_starts sample_At (GetCodeItem branch_method)"
    by blast
  with branch_Create have b: "block_starts sample_At (GetCodeItem branch_method) = {0, 12, 30}"
    by auto
  have code': "GetCodeItem sample_method = switch_code"
    by (simp add: sample_method_def)
  have pos': "positive_sizes sample_At (insns (GetCodeItem sample_method))"
    by (rule sample_At_positive)
  have wf': "switches_well_formed sample_At (insns (GetCodeItem sample_method))"
    unfolding code' by (rule switch_well_formed)
  have nn': "\<not> (True \<and> IsNative sample_method)"
    by (simp add: sample_method_def)
  have sw: "3 \<in> offsets_from sample_At (insns (GetCodeItem sample_method)) 0"
    "is_switch (sample_At (insns (GetCodeItem sample_method)) 3)"
    unfolding code' by (rule switch_three, rule switch_is_switch)
  from Create_block_starts [OF pos' wf' nn'] obtain entries' dex_pcs' where
    "Create True sample_At sample_method = Some (Inr (entries', dex_pcs'))"
    "set dex_pcs' = block_starts sample_At (GetCodeItem sample_method)"
    by blast
  with switch_Create have b': "block_starts sample_At (GetCodeItem sample_method) = {0, 6, 7, 8}"
    by auto
  from pos wf nn branch_Create b ten at10 pos' wf' sw switch_Create b' show ?thesis
    by simp
qed

text \<open>
  Claim C9. Take the vectors \<open>Create\<close> returns for a method of fewer than \<open>2^32\<close>
  code units (its size is a \<open>uint32_t\<close>) whose instructions all have a positive size,
  and the record the constructor makes of them. The offsets of its inline caches are
  pairwise distinct; the offsets of its block counters are pairwise distinct and in
  strictly ascending order; and every run of \<open>AddInvokeInfo\<close> and
  \<open>IncrementBBCount\<close> calls leaves both arrays with their lengths and offsets.
\<close>

theorem constructed_profile_shape:
  assumes pos: "positive_sizes At (insns (GetCodeItem m))"
    and len: "length (insns (GetCodeItem m)) < 2 ^ 32"
    and cr: "Create dbg At m = Some (Inr (entries, dex_pcs))"
    and new: "new_ProfilingInfo dbg k m entries dex_pcs = Inr info"
  shows "distinct (map cache_dex_pc (cache info)) \<and>
         distinct (map bb_dex_pc (bb_counts info)) \<and>
         sorted_wrt (<) (map bb_dex_pc (bb_counts info)) \<and>
         (\<forall>ops info'. apply_ops dbg k info ops = Inr info' \<longrightarrow>
            length (cache info') = length (cache info) \<and>
            length (bb_counts info') = length (bb_counts info) \<and>
            map cache_dex_pc (cache info') = map cache_dex_pc (cache info) \<and>
            map bb_dex_pc (bb_counts info') = map bb_dex_pc (bb_counts info))"
proof -
  let ?units = "insns (GetCodeItem m)"
  from cr obtain starts where
    loop: "Create_loop At ?units 0 (of_nat 0) [] {0} = Some (Inr (entries, starts))"
    and dp: "dex_pcs = sorted_list_of_set (add_catch_clauses (tries (GetCodeItem m)) starts)"
    by (auto simp: Create_def split: if_splits option.splits sum.splits)
  from Create_loop_entries [OF pos loop] obtain qs where
    qs: "entries = map of_nat qs" "sorted_wrt (<) qs" "\<forall>q \<in> set qs. q < length ?units"
    by auto
  from qs(3) len have "\<forall>q \<in> set qs. q < 2 ^ 32" by auto
  from distinct_offsets [OF qs(2) this] qs(1) have de: "distinct entries" by simp
  from dp have sp: "sorted_wrt (<) dex_pcs" by simp
  then have dd: "distinct dex_pcs" by (simp add: strict_sorted_iff)
  from new have c: "map cache_dex_pc (cache info) = entries"
    and b: "map bb_dex_pc (bb_counts info) = dex_pcs"
    by (auto simp: new_ProfilingInfo_def Let_def comp_def split: if_splits)
  have keep: "length (cache info') = length (cache info) \<and>
            length (bb_counts info') = length (bb_counts info) \<and>
            map cache_dex_pc (cache info') = map cache_dex_pc (cache info) \<and>
            map bb_dex_pc (bb_counts info') = map bb_dex_pc (bb_counts info)"
    if "apply_ops dbg k info ops = Inr info'" for ops info'
  proof -
    from apply_ops_shape [OF that] have
      m: "map cache_dex_pc (cache info') = map cache_dex_pc (cache info)"
         "map bb_dex_pc (bb_counts info') = map bb_dex_pc (bb_counts info)"
      by simp_all
    from m(1) have "length (cache info') = length (cache info)" by (metis length_map)
    moreover from m(2) have "length (bb_counts info') = length (bb_counts info)" by (metis length_map)
    ultimately show ?thesis using m by simp
  qed
  from de dd sp c b keep show ?thesis by simp
qed

theorem constructed_profile_shape_witness:
  "positive_sizes sample_At (insns (GetCodeItem sample_method)) \<and>
   length (insns (GetCodeItem sample_method)) < 2 ^ 32 \<and>
   Create True sample_At sample_method = Some (Inr ([0], [0, 6, 7, 8])) \<and>
   (\<exists>info. new_ProfilingInfo True 2 sample_method [0] [0, 6, 7, 8] = Inr info \<and>
      map cache_dex_pc (cache info) = [0] \<and>
      map bb_dex_pc (bb_counts info) = [0, 6, 7, 8] \<and>
      distinct (map cache_dex_pc (cache info)) \<and>
      sorted_wrt (<) (map bb_dex_pc (bb_counts info)) \<and>
      (\<exists>info'. apply_ops True 2 info [AddInvoke 0 11, IncrementBB 6, IncrementBB 6] = Inr info' \<and>
         length (cache info') = 1 \<and> length (bb_counts info') = 4))"
proof -
  have pos: "positive_sizes sample_At (insns (GetCodeItem sample_method))"
    by (rule sample_At_positive)
  have len: "length (insns (GetCodeItem sample_method)) < 2 ^ 32"
    by (simp add: sample_method_def switch_code_def)
  let ?info = "\<lparr> cache = [\<lparr> cache_dex_pc = 0, classes = [nullptr, nullptr] \<rparr>],
           bb_counts = [\<lparr> bb_dex_pc = 0, count = 0 \<rparr>, \<lparr> bb_dex_pc = 6, count = 0 \<rparr>,
                        \<lparr> bb_dex_pc = 7, count = 0 \<rparr>, \<lparr> bb_dex_pc = 8, count = 0 \<rparr>],
           art_method = sample_method,
           is_method_being_compiled = False,
           is_osr_method_being_compiled = False,
           current_inline_uses = 0,
           saved_entry_point = nullptr,
           holding_class = 7 \<rparr>"
  note shape = constructed_profile_shape [OF pos len switch_Create switch_info]
  have run: "\<exists>info'. apply_ops True 2 ?info [AddInvoke 0 11, IncrementBB 6, IncrementBB 6] = Inr info'"
    by (simp add: AddInvokeInfo_def GetInlineCache_def GetInlineCache_from.simps
        number_of_inline_caches_def AddInvokeInfo_loop_unfold IncrementBBCount_def
        IncrementBBCount_from.simps number_of_bb_counts_def nullptr_def)
  then obtain info' where
    r: "apply_ops True 2 ?info [AddInvoke 0 11, IncrementBB 6, IncrementBB 6] = Inr info'"
    by blast
  with shape have "length (cache info') = length (cache ?info)"
    "length (bb_counts info') = length (bb_counts ?info)"
    by blast+
  then have "length (cache info') = 1" "length (bb_counts info') = 4"
    by simp_all
  with r shape pos len switch_Create switch_info show ?thesis
    by (intro conjI exI [of _ ?info] exI [of _ info']) simp_all
qed

end
